theory Spec2Isabelle
  imports Complex_Main "HOL-Library.Multiset"
begin

section \<open>The objects a World coordinates\<close>

text \<open>
  \<^verbatim>\<open>World.ts\<close> is the coordinator of an entity/system runtime. Entities and systems are
  JavaScript objects with identity: two entities may carry the same name and still be
  different objects, a system is compared by identity (\<^verbatim>\<open>systems.includes(system)\<close>).
  The embedding therefore keeps an explicit object store: references are natural
  numbers, the store maps every reference to the object's fields.

  Only \<^verbatim>\<open>World.ts\<close> is among the sources; \<^verbatim>\<open>BaseEntity\<close>, \<^verbatim>\<open>BaseSystem\<close> and the
  interfaces are not. The fields below are the ones \<^verbatim>\<open>World.ts\<close> reads
  (\<^verbatim>\<open>entity.name\<close>, \<^verbatim>\<open>entity.active\<close>, \<^verbatim>\<open>entity.parent\<close>, \<^verbatim>\<open>entity.object3D\<close>,
  \<^verbatim>\<open>system.priority\<close>, \<^verbatim>\<open>system.enabled\<close>, the optional hooks, \<^verbatim>\<open>system.world\<close>),
  together with the child list and the tracked subset that the specification gives to
  an entity and to a system.
\<close>

type_synonym EntityId = string
type_synonym eref = nat
type_synonym sref = nat
type_synonym wref = nat
type_synonym Object3D = nat
type_synonym number = real

record Entity =
  e_name :: EntityId
  e_active :: bool
  e_parent :: "eref option"
  e_children :: "eref list"
  e_object3D :: Object3D

record System =
  s_name :: string
  s_priority :: int
  s_enabled :: bool
  s_fixedUpdate :: bool
  s_preRender :: bool
  s_postRender :: bool
  s_world :: "wref option"
  s_entities :: "eref set"

text \<open>
  The fields of the class \<^verbatim>\<open>World\<close> (lines 12--20). \<^verbatim>\<open>entities\<close> is a JavaScript
  \<^verbatim>\<open>Map\<close>, which iterates in insertion order: an association list. \<^verbatim>\<open>scene\<close> is a
  reference to the renderer's shared scene and lives in the state below.
\<close>

record World =
  name :: string
  entities :: "(EntityId \<times> eref) list"
  systems :: "sref list"
  active :: bool
  initialized :: bool
  paused :: bool

text \<open>
  Every method call that \<^verbatim>\<open>World.ts\<close> makes on an entity or a system for its effect.
  The methods are virtual and their bodies are not among the sources: the embedding
  records each invocation, in order, in a call log.
\<close>

datatype hook =
    EntityInitialize eref
  | EntityUpdate eref number
  | EntityDestroy eref
  | SystemInitialize sref
  | SystemUpdate sref number
  | SystemFixedUpdate sref number
  | SystemPreRender sref
  | SystemPostRender sref
  | SystemDestroy sref
  | SystemAddEntity sref eref
  | SystemRemoveEntity sref eref

text \<open>What \<^verbatim>\<open>World.ts\<close> sends to the event bus \<^verbatim>\<open>g_core.getInternalNet()\<close>.\<close>

datatype bus_event =
    On_EVENT_UPDATE
  | Emit_EVENT_WORLD_INIT bool
  | Emit_world_pause string
  | Emit_world_resume string

text \<open>
  The state a method of \<^verbatim>\<open>World\<close> runs in: the world object itself (\<open>self\<close> is its
  identity), the children of the scene root, the object store, the allocator of
  \<^verbatim>\<open>new BaseEntity\<close>, and the two logs. Console output is not modelled.
\<close>

record state =
  world :: World
  self :: wref
  scene :: "Object3D list"
  entity_obj :: "eref \<Rightarrow> Entity"
  system_obj :: "sref \<Rightarrow> System"
  next_ref :: nat
  calls :: "hook list"
  bus :: "bus_event list"

text \<open>
  The behaviour of the virtual methods is a parameter of the embedding:
  \<open>checkEntityCompatibility B s e\<close> is the answer of system \<open>s\<close>'s predicate on
  entity \<open>e\<close> (a pure predicate, section 4.2 of the specification), and \<open>raises B h\<close>
  says whether the invocation \<open>h\<close> throws. The embedding assumes that a hook does not
  re-enter the world: it changes neither the registry, the system list nor the fields
  listed above.
\<close>

record hooks =
  checkEntityCompatibility :: "sref \<Rightarrow> eref \<Rightarrow> bool"
  raises :: "hook \<Rightarrow> bool"

text \<open>
  A method either returns a value or throws; either way it leaves a state behind.
  \<open>Throw h st\<close> is the exception of hook invocation \<open>h\<close> leaving \<^verbatim>\<open>World.ts\<close>, which
  has no \<^verbatim>\<open>try\<close>/\<^verbatim>\<open>catch\<close> anywhere.
\<close>

datatype 'a result = Return 'a state | Throw hook state

fun state_of :: "'a result \<Rightarrow> state" where
  "state_of (Return _ st) = st"
| "state_of (Throw _ st) = st"

definition bind :: "'a result \<Rightarrow> ('a \<Rightarrow> state \<Rightarrow> 'b result) \<Rightarrow> 'b result" where
  "bind r k = (case r of Return a st \<Rightarrow> k a st | Throw h st \<Rightarrow> Throw h st)"

definition andThen :: "unit result \<Rightarrow> (state \<Rightarrow> 'b result) \<Rightarrow> 'b result" where
  "andThen r k = bind r (\<lambda>_. k)"

text \<open>Invoking a hook: the invocation is logged, then it returns or throws.\<close>

definition call :: "hooks \<Rightarrow> hook \<Rightarrow> state \<Rightarrow> unit result" where
  "call B h st =
     (let st' = st\<lparr>calls := calls st @ [h]\<rparr>
      in if raises B h then Throw h st' else Return () st')"

text \<open>\<^verbatim>\<open>for (const x of xs) { ... }\<close> and \<^verbatim>\<open>forEach\<close>: an exception ends the loop.\<close>

primrec forEach :: "('a \<Rightarrow> state \<Rightarrow> unit result) \<Rightarrow> 'a list \<Rightarrow> state \<Rightarrow> unit result" where
  "forEach f [] st = Return () st"
| "forEach f (x # xs) st = andThen (f x st) (forEach f xs)"

subsection \<open>The JavaScript Map and Array operations used\<close>

definition Map_has :: "('k \<times> 'v) list \<Rightarrow> 'k \<Rightarrow> bool" where
  "Map_has m k = (k \<in> set (map fst m))"

definition Map_get :: "('k \<times> 'v) list \<Rightarrow> 'k \<Rightarrow> 'v option" where
  "Map_get m k = map_of m k"

fun Map_set :: "('k \<times> 'v) list \<Rightarrow> 'k \<Rightarrow> 'v \<Rightarrow> ('k \<times> 'v) list" where
  "Map_set [] k v = [(k, v)]"
| "Map_set ((k', v') # m) k v = (if k' = k then (k, v) # m else (k', v') # Map_set m k v)"

definition Map_delete :: "('k \<times> 'v) list \<Rightarrow> 'k \<Rightarrow> ('k \<times> 'v) list" where
  "Map_delete m k = filter (\<lambda>(k', v). k' \<noteq> k) m"

fun indexOf :: "'a list \<Rightarrow> 'a \<Rightarrow> nat option" where
  "indexOf [] x = None"
| "indexOf (y # ys) x =
     (if y = x then Some 0 else (case indexOf ys x of None \<Rightarrow> None | Some i \<Rightarrow> Some (Suc i)))"

definition splice1 :: "nat \<Rightarrow> 'a list \<Rightarrow> 'a list" where
  "splice1 index xs = take index xs @ drop (Suc index) xs"

subsection \<open>The scene root\<close>

text \<open>
  The scene is an object of the rendering library (three.js), not of this repository.
  Its \<^verbatim>\<open>add\<close> takes the object out of its previous parent and appends it to the
  children; its \<^verbatim>\<open>remove\<close> takes the object out of the children when it is there.
\<close>

definition Scene_add :: "Object3D \<Rightarrow> Object3D list \<Rightarrow> Object3D list" where
  "Scene_add obj children = remove1 obj children @ [obj]"

definition Scene_remove :: "Object3D \<Rightarrow> Object3D list \<Rightarrow> Object3D list" where
  "Scene_remove obj children =
     (case indexOf children obj of None \<Rightarrow> children | Some i \<Rightarrow> splice1 i children)"

subsection \<open>Methods of entities and systems that the specification defines\<close>

text \<open>
  Modelled from the spec: \<^verbatim>\<open>BaseSystem.addEntity\<close> is not among the sources. Section 4.2:
  ``\<^verbatim>\<open>addEntity(entity)\<close> / \<^verbatim>\<open>removeEntity(entity)\<close>: mutate the tracked subset''. The
  call is logged like every other hook, and adds the entity to the subset.
\<close>

definition System_addEntity :: "hooks \<Rightarrow> sref \<Rightarrow> eref \<Rightarrow> state \<Rightarrow> unit result" where
  "System_addEntity B system entity st =
     andThen (call B (SystemAddEntity system entity) st)
       (\<lambda>st. Return () (st\<lparr>system_obj := (system_obj st)
          (system := (system_obj st system)
             \<lparr>s_entities := insert entity (s_entities (system_obj st system))\<rparr>)\<rparr>))"

text \<open>
  Modelled from the spec: \<^verbatim>\<open>BaseSystem.removeEntity\<close> is not among the sources. Section
  4.2, as above: the call takes the entity out of the tracked subset.
\<close>

definition System_removeEntity :: "hooks \<Rightarrow> sref \<Rightarrow> eref \<Rightarrow> state \<Rightarrow> unit result" where
  "System_removeEntity B system entity st =
     andThen (call B (SystemRemoveEntity system entity) st)
       (\<lambda>st. Return () (st\<lparr>system_obj := (system_obj st)
          (system := (system_obj st system)
             \<lparr>s_entities := s_entities (system_obj st system) - {entity}\<rparr>)\<rparr>))"

text \<open>
  Modelled from the spec: the constructor of \<^verbatim>\<open>BaseEntity\<close> is not among the sources.
  Section 4.1: ``construction does not fail''. A new entity is a fresh object with the
  given name and a node of its own; it is taken to start active, without parent and
  without children.
\<close>

definition new_BaseEntity :: "string \<Rightarrow> state \<Rightarrow> eref \<times> state" where
  "new_BaseEntity nm st =
     (let r = next_ref st in
      (r, st\<lparr>entity_obj := (entity_obj st)
               (r := \<lparr>e_name = nm, e_active = True, e_parent = None, e_children = [],
                      e_object3D = r\<rparr>),
             next_ref := Suc r\<rparr>))"

text \<open>
  The snapshot that \<^verbatim>\<open>World.toJSON\<close> returns and \<^verbatim>\<open>World.fromJSON\<close> reads:
  \<^verbatim>\<open>{ name, active, entities: { <id>: <entity data> } }\<close>, the entity data with the fields
  that \<^verbatim>\<open>fromJSON\<close> reads (\<^verbatim>\<open>name\<close>, \<^verbatim>\<open>children\<close>) and the \<^verbatim>\<open>active\<close> flag of section 6 of
  the specification. \<^verbatim>\<open>fromJSON\<close> tests every field for presence: each is optional.
  The properties of \<^verbatim>\<open>entities\<close> are listed in the order in which JavaScript enumerates
  them.
\<close>

record EntityData =
  d_name :: "string option"
  d_active :: "bool option"
  d_children :: "EntityId list option"

record WorldData =
  d_wname :: "string option"
  d_wactive :: "bool option"
  d_entities :: "(EntityId \<times> EntityData) list option"

text \<open>
  Modelled from the spec: \<^verbatim>\<open>BaseEntity.toJSON\<close> is not among the sources. Section 4.1:
  it ``serializes/restores entity-local state (name, active flag, ...); does not
  serialize children inline''; section 6 gives the entry of an entity as
  \<^verbatim>\<open>{ name, active, ..., children: [<id>, ...] }\<close>. The identity of a child is its name, the
  key under which the registry holds it.
\<close>

definition Entity_toJSON :: "state \<Rightarrow> eref \<Rightarrow> EntityData" where
  "Entity_toJSON st entity =
     \<lparr>d_name = Some (e_name (entity_obj st entity)),
      d_active = Some (e_active (entity_obj st entity)),
      d_children = Some (map (\<lambda>c. e_name (entity_obj st c)) (e_children (entity_obj st entity)))\<rparr>"

text \<open>
  Modelled from the spec: \<^verbatim>\<open>BaseEntity.fromJSON\<close> is not among the sources. Section 4.1,
  as above: it restores the name and the active flag, those that are present, and
  leaves the children to the world.
\<close>

definition Entity_fromJSON :: "eref \<Rightarrow> EntityData \<Rightarrow> state \<Rightarrow> state" where
  "Entity_fromJSON entity entityData st =
     (let e0 = entity_obj st entity;
          e1 = (case d_name entityData of None \<Rightarrow> e0 | Some n \<Rightarrow> e0\<lparr>e_name := n\<rparr>);
          e2 = (case d_active entityData of None \<Rightarrow> e1 | Some a \<Rightarrow> e1\<lparr>e_active := a\<rparr>)
      in st\<lparr>entity_obj := (entity_obj st)(entity := e2)\<rparr>)"

text \<open>
  Modelled from the spec: \<^verbatim>\<open>BaseEntity.addChild\<close> is not among the sources; \<open>detach\<close> is
  its first half. Section 3: ``each entity has at most one parent'': a child that has a
  parent leaves that parent's children first.
\<close>

definition detach :: "eref \<Rightarrow> state \<Rightarrow> state" where
  "detach child st =
     (case e_parent (entity_obj st child) of
        None \<Rightarrow> st
      | Some p \<Rightarrow> st\<lparr>entity_obj := (entity_obj st)
          (p := (entity_obj st p)\<lparr>e_children := remove1 child (e_children (entity_obj st p))\<rparr>,
           child := (entity_obj st child)\<lparr>e_parent := None\<rparr>)\<rparr>)"

text \<open>
  Modelled from the spec: \<^verbatim>\<open>BaseEntity.addChild\<close> is not among the sources. Section 4.1:
  it ``establishes the tree link''; section 3: ``children form an ordered sequence''.
  The child is appended to the children of its new parent and gets it as parent.
\<close>

definition Entity_addChild :: "eref \<Rightarrow> eref \<Rightarrow> state \<Rightarrow> state" where
  "Entity_addChild entity child st =
     (let st1 = detach child st in
      st1\<lparr>entity_obj := (entity_obj st1)
        (entity := (entity_obj st1 entity)\<lparr>e_children := e_children (entity_obj st1 entity) @ [child]\<rparr>,
         child := (entity_obj st1 child)\<lparr>e_parent := Some entity\<rparr>)\<rparr>)"

section \<open>World.ts\<close>

text \<open>The field initialisers and the constructor (lines 12--25).\<close>

definition new_World :: World where
  "new_World =
     \<lparr>name = ''BaseWorld'', entities = [], systems = [],
      active = True, initialized = False, paused = False\<rparr>"

text \<open>\<^verbatim>\<open>addEntity\<close>, lines 33--56.\<close>

definition addEntity :: "hooks \<Rightarrow> eref \<Rightarrow> state \<Rightarrow> unit result" where
  "addEntity B entity st =
     (if Map_has (entities (world st)) (e_name (entity_obj st entity)) then Return () st
      else
        let st1 = st\<lparr>world := (world st)
                     \<lparr>entities := Map_set (entities (world st)) (e_name (entity_obj st entity)) entity\<rparr>\<rparr>;
            st2 = st1\<lparr>scene := Scene_add (e_object3D (entity_obj st1 entity)) (scene st1)\<rparr>
        in andThen
             (forEach (\<lambda>system st.
                  if checkEntityCompatibility B system entity
                  then System_addEntity B system entity st else Return () st)
                (systems (world st2)) st2)
             (\<lambda>st. if initialized (world st) then call B (EntityInitialize entity) st
                   else Return () st))"

text \<open>\<^verbatim>\<open>createEntity\<close>, lines 27--31; the default name is \<^verbatim>\<open>'Entity'\<close>.\<close>

definition createEntity :: "hooks \<Rightarrow> string option \<Rightarrow> state \<Rightarrow> eref result" where
  "createEntity B name_arg st =
     (let nm = (case name_arg of None \<Rightarrow> ''Entity'' | Some n \<Rightarrow> n);
          (entity, st1) = new_BaseEntity nm st
      in andThen (addEntity B entity st1) (\<lambda>st. Return entity st))"

text \<open>
  \<^verbatim>\<open>removeEntity\<close>, lines 58--77. The argument is an identity (a string) or an entity
  object, whose name is then the identity.
\<close>

definition removeEntity :: "hooks \<Rightarrow> EntityId + eref \<Rightarrow> state \<Rightarrow> bool result" where
  "removeEntity B entityOrId st =
     (let eid = (case entityOrId of Inl i \<Rightarrow> i | Inr e \<Rightarrow> e_name (entity_obj st e)) in
      case Map_get (entities (world st)) eid of
        None \<Rightarrow> Return False st
      | Some entity \<Rightarrow>
          andThen
            (forEach (\<lambda>system. System_removeEntity B system entity) (systems (world st))
               (st\<lparr>scene := Scene_remove (e_object3D (entity_obj st entity)) (scene st)\<rparr>))
            (\<lambda>st. Return True
               (st\<lparr>world := (world st)\<lparr>entities := Map_delete (entities (world st)) eid\<rparr>\<rparr>)))"

text \<open>\<^verbatim>\<open>getEntity\<close>, lines 79--81.\<close>

definition getEntity :: "EntityId \<Rightarrow> state \<Rightarrow> eref option" where
  "getEntity eid st = Map_get (entities (world st)) eid"

text \<open>
  \<^verbatim>\<open>sortSystems\<close>, lines 358--360: \<^verbatim>\<open>Array.prototype.sort\<close> with the comparator
  \<^verbatim>\<open>a.priority - b.priority\<close>. The language standard requires the sort to be stable;
  \<^const>\<open>sort_key\<close> is the stable insertion sort.
\<close>

definition priority :: "state \<Rightarrow> sref \<Rightarrow> int" where
  "priority st system = s_priority (system_obj st system)"

definition sortSystems :: "state \<Rightarrow> state" where
  "sortSystems st = st\<lparr>world := (world st)\<lparr>systems := sort_key (priority st) (systems (world st))\<rparr>\<rparr>"

text \<open>\<^verbatim>\<open>addSystem\<close>, lines 107--132.\<close>

definition addSystem :: "hooks \<Rightarrow> sref \<Rightarrow> state \<Rightarrow> unit result" where
  "addSystem B system st =
     (if system \<in> set (systems (world st)) then Return () st
      else
        let st1 = st\<lparr>system_obj := (system_obj st)
                     (system := (system_obj st system)\<lparr>s_world := Some (self st)\<rparr>)\<rparr>;
            st2 = st1\<lparr>world := (world st1)\<lparr>systems := systems (world st1) @ [system]\<rparr>\<rparr>;
            st3 = sortSystems st2
        in if initialized (world st3) then
             andThen (call B (SystemInitialize system) st3)
               (\<lambda>st. forEach (\<lambda>(eid, entity) st.
                         if checkEntityCompatibility B system entity
                         then System_addEntity B system entity st else Return () st)
                       (entities (world st)) st)
           else Return () st3)"

text \<open>\<^verbatim>\<open>removeSystem\<close>, lines 134--148.\<close>

definition removeSystem :: "hooks \<Rightarrow> sref \<Rightarrow> state \<Rightarrow> bool result" where
  "removeSystem B system st =
     (case indexOf (systems (world st)) system of
        None \<Rightarrow> Return False st
      | Some index \<Rightarrow>
          andThen
            (call B (SystemDestroy system)
               (st\<lparr>world := (world st)\<lparr>systems := splice1 index (systems (world st))\<rparr>\<rparr>))
            (\<lambda>st. Return True st))"

text \<open>\<^verbatim>\<open>update\<close>, lines 162--178.\<close>

definition update :: "hooks \<Rightarrow> number \<Rightarrow> state \<Rightarrow> unit result" where
  "update B deltaTime st =
     (if \<not> active (world st) \<or> paused (world st) then Return () st
      else
        andThen
          (forEach (\<lambda>system st.
               if s_enabled (system_obj st system)
               then call B (SystemUpdate system deltaTime) st else Return () st)
             (systems (world st)) st)
          (\<lambda>st. forEach (\<lambda>(eid, entity) st.
                    if e_active (entity_obj st entity)
                    then call B (EntityUpdate entity deltaTime) st else Return () st)
                  (entities (world st)) st))"

text \<open>\<^verbatim>\<open>fixedUpdate\<close>, lines 180--190.\<close>

definition fixedUpdate :: "hooks \<Rightarrow> number \<Rightarrow> state \<Rightarrow> unit result" where
  "fixedUpdate B fixedDeltaTime st =
     (if \<not> active (world st) \<or> paused (world st) then Return () st
      else
        forEach (\<lambda>system st.
            if s_enabled (system_obj st system) \<and> s_fixedUpdate (system_obj st system)
            then call B (SystemFixedUpdate system fixedDeltaTime) st else Return () st)
          (systems (world st)) st)"

text \<open>\<^verbatim>\<open>initialize\<close>, lines 192--217.\<close>

definition initialize :: "hooks \<Rightarrow> state \<Rightarrow> unit result" where
  "initialize B st =
     (if initialized (world st) then Return () st
      else
        andThen
          (forEach (\<lambda>system. call B (SystemInitialize system)) (systems (world st)) st)
          (\<lambda>st. andThen
             (forEach (\<lambda>(eid, entity). call B (EntityInitialize entity)) (entities (world st)) st)
             (\<lambda>st. Return ()
                (st\<lparr>world := (world st)\<lparr>initialized := True\<rparr>,
                    bus := bus st @ [On_EVENT_UPDATE, Emit_EVENT_WORLD_INIT True]\<rparr>))))"

text \<open>
  \<^verbatim>\<open>destroy\<close>, lines 219--246. The loop
  \<^verbatim>\<open>while (scene.children.length > 0) scene.remove(scene.children[0])\<close> is
  \<open>clear_scene\<close>; it is total because every round shortens the list.
\<close>

function clear_scene :: "Object3D list \<Rightarrow> Object3D list" where
  "clear_scene children =
     (case children of [] \<Rightarrow> children | c # _ \<Rightarrow> clear_scene (Scene_remove c children))"
  by pat_completeness auto
termination
  by (relation "measure length") (auto simp: Scene_remove_def splice1_def)

declare clear_scene.simps [simp del]

definition destroy :: "hooks \<Rightarrow> state \<Rightarrow> unit result" where
  "destroy B st =
     andThen
       (forEach (\<lambda>eid st.
            case Map_get (entities (world st)) eid of
              None \<Rightarrow> Return () st
            | Some entity \<Rightarrow> call B (EntityDestroy entity) st)
          (map fst (entities (world st))) st)
       (\<lambda>st. let st1 = st\<lparr>world := (world st)\<lparr>entities := []\<rparr>\<rparr> in
          andThen
            (forEach (\<lambda>system. call B (SystemDestroy system)) (systems (world st1)) st1)
            (\<lambda>st. let st2 = st\<lparr>world := (world st)\<lparr>systems := []\<rparr>\<rparr>;
                      st3 = st2\<lparr>scene := clear_scene (scene st2)\<rparr>
                  in Return () (st3\<lparr>world := (world st3)\<lparr>active := False, initialized := False\<rparr>\<rparr>)))"

text \<open>\<^verbatim>\<open>pause\<close> and \<^verbatim>\<open>resume\<close>, lines 248--264.\<close>

definition pause :: "state \<Rightarrow> state" where
  "pause st =
     (if \<not> paused (world st)
      then st\<lparr>world := (world st)\<lparr>paused := True\<rparr>,
              bus := bus st @ [Emit_world_pause (name (world st))]\<rparr>
      else st)"

definition resume :: "state \<Rightarrow> state" where
  "resume st =
     (if paused (world st)
      then st\<lparr>world := (world st)\<lparr>paused := False\<rparr>,
              bus := bus st @ [Emit_world_resume (name (world st))]\<rparr>
      else st)"

text \<open>
  The properties of a JavaScript object are enumerated with the array indices first, in
  ascending numeric order, and then the other strings in the order in which they were
  set. An array index is the canonical decimal numeral (no leading zero) of an integer
  from 0 to 4294967294. \<open>ownKeys\<close> puts the properties, given in the order in which
  they were set, into the order of enumeration. (A property named \<^verbatim>\<open>__proto__\<close> is not
  covered: assigning it sets the prototype of the object.)
\<close>

fun decimal :: "string \<Rightarrow> nat \<Rightarrow> nat option" where
  "decimal [] acc = Some acc"
| "decimal (c # cs) acc =
     (case indexOf ''0123456789'' c of
        None \<Rightarrow> None
      | Some d \<Rightarrow> decimal cs (10 * acc + d))"

fun arrayIndex :: "string \<Rightarrow> nat option" where
  "arrayIndex [] = None"
| "arrayIndex (c # cs) =
     (if c = CHR ''0'' \<and> cs \<noteq> [] then None
      else case decimal (c # cs) 0 of
             None \<Rightarrow> None
           | Some n \<Rightarrow> if n \<le> 4294967294 then Some n else None)"

definition ownKeys :: "(string \<times> 'a) list \<Rightarrow> (string \<times> 'a) list" where
  "ownKeys props =
     sort_key (\<lambda>(k, v). case arrayIndex k of None \<Rightarrow> 0 | Some n \<Rightarrow> n)
       (filter (\<lambda>(k, v). arrayIndex k \<noteq> None) props) @
     filter (\<lambda>(k, v). arrayIndex k = None) props"

text \<open>
  \<^verbatim>\<open>toJSON\<close>, lines 266--279: only the entities without a parent are written, as the
  properties of the object \<^verbatim>\<open>entitiesData\<close>, set in the order of the registry. The
  snapshot lists them in the order in which \<^verbatim>\<open>for (const id in data.entities)\<close> of
  \<^verbatim>\<open>fromJSON\<close> visits them.
\<close>

definition toJSON :: "state \<Rightarrow> WorldData" where
  "toJSON st =
     \<lparr>d_wname = Some (name (world st)),
      d_wactive = Some (active (world st)),
      d_entities = Some
        (ownKeys
           (map (\<lambda>(eid, entity). (eid, Entity_toJSON st entity))
              (filter (\<lambda>(eid, entity). e_parent (entity_obj st entity) = None)
                 (entities (world st)))))\<rparr>"

text \<open>
  \<^verbatim>\<open>fromJSON\<close>, lines 281--332. The comparison of the names (lines 284--290) only
  writes to the console. The three loops over \<^verbatim>\<open>data.entities\<close> follow: create, apply,
  link; \<open>entityMap\<close> is the local \<^verbatim>\<open>Map\<close> from the keys of the snapshot to the new
  entities.
\<close>

fun fromJSON_create ::
  "hooks \<Rightarrow> (EntityId \<times> EntityData) list \<Rightarrow> (EntityId \<times> eref) list \<Rightarrow> state
     \<Rightarrow> (EntityId \<times> eref) list result" where
  "fromJSON_create B [] entityMap st = Return entityMap st"
| "fromJSON_create B ((eid, entityData) # rest) entityMap st =
     bind (createEntity B (d_name entityData) st)
       (\<lambda>entity st. fromJSON_create B rest (Map_set entityMap eid entity) st)"

definition fromJSON_apply ::
  "(EntityId \<times> eref) list \<Rightarrow> EntityId \<times> EntityData \<Rightarrow> state \<Rightarrow> unit result" where
  "fromJSON_apply entityMap = (\<lambda>(eid, entityData) st.
     case Map_get entityMap eid of
       None \<Rightarrow> Return () st
     | Some entity \<Rightarrow> Return () (Entity_fromJSON entity entityData st))"

definition fromJSON_link ::
  "(EntityId \<times> eref) list \<Rightarrow> EntityId \<times> EntityData \<Rightarrow> state \<Rightarrow> unit result" where
  "fromJSON_link entityMap = (\<lambda>(eid, entityData) st.
     case (Map_get entityMap eid, d_children entityData) of
       (Some entity, Some childIds) \<Rightarrow>
          forEach (\<lambda>childId st.
              case Map_get entityMap childId of
                None \<Rightarrow> Return () st
              | Some childEntity \<Rightarrow> Return () (Entity_addChild entity childEntity st))
            childIds st
     | _ \<Rightarrow> Return () st)"

definition fromJSON :: "hooks \<Rightarrow> WorldData \<Rightarrow> state \<Rightarrow> unit result" where
  "fromJSON B data st =
     (let st1 = (case d_wactive data of
                   None \<Rightarrow> st
                 | Some a \<Rightarrow> st\<lparr>world := (world st)\<lparr>active := a\<rparr>\<rparr>)
      in andThen
           (forEach (\<lambda>(eid, entity). call B (EntityDestroy entity)) (entities (world st1)) st1)
           (\<lambda>st. case d_entities data of
                    None \<Rightarrow> Return () st
                  | Some ents \<Rightarrow>
                      bind (fromJSON_create B ents [] st)
                        (\<lambda>entityMap st.
                           andThen (forEach (fromJSON_apply entityMap) ents st)
                             (forEach (fromJSON_link entityMap) ents))))"

text \<open>\<^verbatim>\<open>preRender\<close> and \<^verbatim>\<open>postRender\<close>, lines 334--356.\<close>

definition preRender :: "hooks \<Rightarrow> state \<Rightarrow> unit result" where
  "preRender B st =
     (if \<not> active (world st) \<or> paused (world st) then Return () st
      else
        forEach (\<lambda>system st.
            if s_enabled (system_obj st system) \<and> s_preRender (system_obj st system)
            then call B (SystemPreRender system) st else Return () st)
          (systems (world st)) st)"

definition postRender :: "hooks \<Rightarrow> state \<Rightarrow> unit result" where
  "postRender B st =
     (if \<not> active (world st) \<or> paused (world st) then Return () st
      else
        forEach (\<lambda>system st.
            if s_enabled (system_obj st system) \<and> s_postRender (system_obj st system)
            then call B (SystemPostRender system) st else Return () st)
          (systems (world st)) st)"

section \<open>What a run is compared with\<close>

text \<open>
  The definitions of this section are not taken from the source: they are the
  vocabulary in which the claims are stated.

  \<open>run_hooks B hs\<close> invokes the hooks \<open>hs\<close> in order and stops at the first that
  raises: the log grows by the hooks up to and including that one.
\<close>

definition run_hooks :: "hooks \<Rightarrow> hook list \<Rightarrow> state \<Rightarrow> unit result" where
  "run_hooks B hs st =
     (case dropWhile (\<lambda>h. \<not> raises B h) hs of
        [] \<Rightarrow> Return () (st\<lparr>calls := calls st @ hs\<rparr>)
      | h # _ \<Rightarrow> Throw h (st\<lparr>calls := calls st @ takeWhile (\<lambda>h. \<not> raises B h) hs @ [h]\<rparr>))"

fun result_value :: "'a result \<Rightarrow> 'a option" where
  "result_value (Return a _) = Some a"
| "result_value (Throw _ _) = None"

text \<open>The tracked subset of a system.\<close>

definition tracked :: "state \<Rightarrow> sref \<Rightarrow> eref set" where
  "tracked st s = s_entities (system_obj st s)"

text \<open>Every system of the list \<open>ss\<close> drops entity \<open>e\<close> from its tracked subset.\<close>

definition untrack :: "eref \<Rightarrow> sref list \<Rightarrow> (sref \<Rightarrow> System) \<Rightarrow> sref \<Rightarrow> System" where
  "untrack e ss objs = (\<lambda>s. if s \<in> set ss
      then (objs s)\<lparr>s_entities := s_entities (objs s) - {e}\<rparr> else objs s)"

text \<open>
  The hooks a pass is expected to invoke, in order: for \<^verbatim>\<open>update\<close> the enabled systems
  in the order of the system list, then the active entities in the order of the
  registry; for the other three passes the enabled systems that have the optional hook.
\<close>

definition enabled_systems :: "state \<Rightarrow> sref list" where
  "enabled_systems st = filter (\<lambda>s. s_enabled (system_obj st s)) (systems (world st))"

definition active_entities :: "state \<Rightarrow> eref list" where
  "active_entities st =
     map snd (filter (\<lambda>(eid, e). e_active (entity_obj st e)) (entities (world st)))"

definition update_plan :: "number \<Rightarrow> state \<Rightarrow> hook list" where
  "update_plan dt st =
     map (\<lambda>s. SystemUpdate s dt) (enabled_systems st) @
     map (\<lambda>e. EntityUpdate e dt) (active_entities st)"

definition fixedUpdate_plan :: "number \<Rightarrow> state \<Rightarrow> hook list" where
  "fixedUpdate_plan dt st =
     map (\<lambda>s. SystemFixedUpdate s dt)
       (filter (\<lambda>s. s_enabled (system_obj st s) \<and> s_fixedUpdate (system_obj st s))
          (systems (world st)))"

definition preRender_plan :: "state \<Rightarrow> hook list" where
  "preRender_plan st =
     map SystemPreRender
       (filter (\<lambda>s. s_enabled (system_obj st s) \<and> s_preRender (system_obj st s))
          (systems (world st)))"

definition postRender_plan :: "state \<Rightarrow> hook list" where
  "postRender_plan st =
     map SystemPostRender
       (filter (\<lambda>s. s_enabled (system_obj st s) \<and> s_postRender (system_obj st s))
          (systems (world st)))"

text \<open>
  A sequence of \<^verbatim>\<open>addSystem\<close> and \<^verbatim>\<open>removeSystem\<close> calls. The caller goes on after a
  call that threw (the state that the call left behind is the next call's state), so
  that every history is covered. \<open>insertion_order\<close> lists the systems that such a
  sequence leaves registered, in the order of their insertion.
\<close>

datatype system_op = AddSystem sref | RemoveSystem sref

fun apply_system_op :: "hooks \<Rightarrow> system_op \<Rightarrow> state \<Rightarrow> state" where
  "apply_system_op B (AddSystem s) st = state_of (addSystem B s st)"
| "apply_system_op B (RemoveSystem s) st = state_of (removeSystem B s st)"

definition run_system_ops :: "hooks \<Rightarrow> system_op list \<Rightarrow> state \<Rightarrow> state" where
  "run_system_ops B ops st = fold (apply_system_op B) ops st"

fun insert_op :: "system_op \<Rightarrow> sref list \<Rightarrow> sref list" where
  "insert_op (AddSystem s) xs = (if s \<in> set xs then xs else xs @ [s])"
| "insert_op (RemoveSystem s) xs = remove1 s xs"

definition insertion_order :: "system_op list \<Rightarrow> sref list" where
  "insertion_order ops = fold insert_op ops []"

text \<open>
  The hooks \<^verbatim>\<open>destroy\<close> is expected to invoke: the destroy hook of every registered
  entity in registry order, then that of every system in list order.
\<close>

definition destroy_plan :: "state \<Rightarrow> hook list" where
  "destroy_plan st =
     map (\<lambda>(eid, e). EntityDestroy e) (entities (world st)) @
     map SystemDestroy (systems (world st))"

text \<open>
  Registering the entities \<open>es\<close> one after the other; as above, the caller goes on
  after a call that threw.
\<close>

definition addEntities :: "hooks \<Rightarrow> eref list \<Rightarrow> state \<Rightarrow> state" where
  "addEntities B es st = fold (\<lambda>e st. state_of (addEntity B e st)) es st"

text \<open>
  What offering entity \<open>e\<close> to system \<open>s\<close> does to the state when no hook raises: the
  body of the two loops of \<^verbatim>\<open>addEntity\<close> and \<^verbatim>\<open>addSystem\<close>.
\<close>

definition offer :: "hooks \<Rightarrow> eref \<Rightarrow> sref \<Rightarrow> state \<Rightarrow> state" where
  "offer B e s st =
     (if checkEntityCompatibility B s e
      then st\<lparr>calls := calls st @ [SystemAddEntity s e],
              system_obj := (system_obj st)
                (s := (system_obj st s)\<lparr>s_entities := insert e (s_entities (system_obj st s))\<rparr>)\<rparr>
      else st)"

text \<open>
  The entity tree of a world, by identities: the registered entities without a parent,
  and the pairs of a registered entity and the name of one of its children.
\<close>

definition roots :: "state \<Rightarrow> EntityId list" where
  "roots st = map fst (filter (\<lambda>(eid, e). e_parent (entity_obj st e) = None) (entities (world st)))"

definition edges :: "state \<Rightarrow> (EntityId \<times> EntityId) list" where
  "edges st =
     concat (map (\<lambda>(eid, e). map (\<lambda>c. (eid, e_name (entity_obj st c))) (e_children (entity_obj st e)))
               (entities (world st)))"

subsection \<open>Example worlds\<close>

text \<open>
  A store with four systems (priorities 30, 10, 20, 20; the fourth disabled) and four
  entities: \<^verbatim>\<open>P\<close> with the child \<^verbatim>\<open>C\<close>, the inactive \<^verbatim>\<open>Q\<close>, and a second object
  named \<^verbatim>\<open>P\<close>. \<open>quiet\<close> are hooks that never raise and systems that accept every
  entity; with \<open>faulty\<close> the update hook of system 2 raises.
\<close>

definition mk_system :: "int \<Rightarrow> bool \<Rightarrow> eref set \<Rightarrow> System" where
  "mk_system p en es =
     \<lparr>s_name = ''System'', s_priority = p, s_enabled = en, s_fixedUpdate = True,
      s_preRender = False, s_postRender = True, s_world = None, s_entities = es\<rparr>"

definition mk_entity :: "string \<Rightarrow> bool \<Rightarrow> eref option \<Rightarrow> eref list \<Rightarrow> Object3D \<Rightarrow> Entity" where
  "mk_entity nm a p cs obj =
     \<lparr>e_name = nm, e_active = a, e_parent = p, e_children = cs, e_object3D = obj\<rparr>"

definition quiet :: hooks where
  "quiet = \<lparr>checkEntityCompatibility = (\<lambda>s e. True), raises = (\<lambda>h. False)\<rparr>"

definition faulty :: hooks where
  "faulty = \<lparr>checkEntityCompatibility = (\<lambda>s e. True), raises = (\<lambda>h. h = SystemUpdate 2 1)\<rparr>"

text \<open>Hooks with which system 4 raises when it is told to remove entity 1.\<close>

definition faulty_remove :: hooks where
  "faulty_remove =
     \<lparr>checkEntityCompatibility = (\<lambda>s e. True), raises = (\<lambda>h. h = SystemRemoveEntity 4 1)\<rparr>"

definition example_store :: state where
  "example_store =
     \<lparr>world = new_World, self = 0, scene = [],
      entity_obj = (\<lambda>r. mk_entity ''Entity'' True None [] r)
        (1 := mk_entity ''P'' True None [2] 1,
         2 := mk_entity ''C'' True (Some 1) [] 2,
         3 := mk_entity ''Q'' False None [] 3,
         4 := mk_entity ''P'' True None [] 4),
      system_obj = (\<lambda>r. mk_system 0 True {})
        (1 := mk_system 30 True {}, 2 := mk_system 10 True {},
         3 := mk_system 20 True {}, 4 := mk_system 20 False {}),
      next_ref = 10, calls = [], bus = []\<rparr>"

text \<open>A world in use: systems 2, 4 and 1, entities \<^verbatim>\<open>P\<close> and \<^verbatim>\<open>Q\<close>, both tracked by system 2.\<close>

definition example_running :: state where
  "example_running =
     example_store
       \<lparr>world := new_World\<lparr>entities := [(''P'', 1), (''Q'', 3)], systems := [2, 4, 1]\<rparr>,
        scene := [1, 3],
        system_obj := (system_obj example_store)(2 := mk_system 10 True {1, 3})\<rparr>"

text \<open>A new world that is given system 2, then entity 1, and is never initialized.\<close>

definition example_uninitialized :: state where
  "example_uninitialized =
     state_of (addEntity quiet 1 (state_of (addSystem quiet 2 example_store)))"

text \<open>Systems 1 to 4 are added, 2 once more, then 3 is removed.\<close>

definition example_ops :: "system_op list" where
  "example_ops = [AddSystem 1, AddSystem 2, AddSystem 3, AddSystem 4, AddSystem 2, RemoveSystem 3]"

text \<open>
  An initialized world without entities and systems, and hooks whose systems accept
  entity 1 only.
\<close>

definition example_initialized :: state where
  "example_initialized = example_store\<lparr>world := new_World\<lparr>initialized := True\<rparr>\<rparr>"

definition selective :: hooks where
  "selective = \<lparr>checkEntityCompatibility = (\<lambda>s e. e = 1), raises = (\<lambda>h. False)\<rparr>"

text \<open>A world whose registry holds \<^verbatim>\<open>P\<close> and its child \<^verbatim>\<open>C\<close>.\<close>

definition example_tree :: state where
  "example_tree =
     example_store\<lparr>world := new_World\<lparr>entities := [(''P'', 1), (''C'', 2)]\<rparr>, scene := [1, 2]\<rparr>"

section \<open>Lemmas\<close>

lemmas example_defs = example_running_def example_store_def new_World_def mk_system_def
  mk_entity_def quiet_def faulty_def

lemma bind_Return [simp]: "bind (Return a st) k = k a st" by (simp add: bind_def)

lemma bind_Throw [simp]: "bind (Throw h st) k = Throw h st" by (simp add: bind_def)

lemma andThen_Return [simp]: "andThen (Return u st) k = k st" by (simp add: andThen_def)

lemma andThen_Throw [simp]: "andThen (Throw h st) k = Throw h st" by (simp add: andThen_def)

lemma forEach_append: "forEach f (xs @ ys) st = andThen (forEach f xs st) (forEach f ys)"
proof (induction xs arbitrary: st)
  case Nil show ?case by simp
next
  case (Cons x xs)
  show ?case by (cases "f x st") (simp_all add: Cons.IH)
qed

lemma call_raises: "raises B h \<Longrightarrow> call B h st = Throw h (st\<lparr>calls := calls st @ [h]\<rparr>)"
  by (simp add: call_def)

lemma call_returns: "\<not> raises B h \<Longrightarrow> call B h st = Return () (st\<lparr>calls := calls st @ [h]\<rparr>)"
  by (simp add: call_def)

lemma dropWhile_Cons_ex: "dropWhile P xs = y # ys \<Longrightarrow> \<exists>x\<in>set xs. \<not> P x"
  using dropWhile_eq_Nil_conv [of P xs] by auto

lemma forEach_call: "forEach (call B) hs st = run_hooks B hs st"
proof (induction hs arbitrary: st)
  case Nil show ?case by (simp add: run_hooks_def)
next
  case (Cons h hs)
  show ?case
  proof (cases "raises B h")
    case True
    then show ?thesis by (simp add: call_raises run_hooks_def)
  next
    case False
    then show ?thesis
      by (auto simp: call_returns Cons.IH run_hooks_def split: list.splits
            dest: dropWhile_Cons_ex)
  qed
qed

lemma forEach_guarded_call:
  assumes "\<And>st cs x. P (st\<lparr>calls := cs\<rparr>) x = P st x"
  shows "forEach (\<lambda>x st. if P st x then call B (g x) st else Return () st) xs st
           = forEach (call B) (map g (filter (P st) xs)) st"
proof (induction xs arbitrary: st)
  case Nil show ?case by simp
next
  case (Cons x xs)
  show ?case
  proof (cases "P st x")
    case False
    then show ?thesis by (simp add: Cons.IH)
  next
    case True
    show ?thesis
    proof (cases "raises B (g x)")
      case True
      with \<open>P st x\<close> show ?thesis by (simp add: call_raises)
    next
      case False
      with \<open>P st x\<close> show ?thesis by (simp add: call_returns Cons.IH assms)
    qed
  qed
qed

lemma andThen_run_hooks_cong:
  "(\<And>cs. k (st\<lparr>calls := cs\<rparr>) = k' (st\<lparr>calls := cs\<rparr>)) \<Longrightarrow>
     andThen (run_hooks B hs st) k = andThen (run_hooks B hs st) k'"
  by (simp add: run_hooks_def split: list.splits)

lemma run_hooks_append:
  "run_hooks B (hs @ hs') st = andThen (run_hooks B hs st) (run_hooks B hs')"
proof -
  have "forEach (call B) hs' = run_hooks B hs'"
    by (rule ext) (rule forEach_call)
  then show ?thesis
    using forEach_append [of "call B" hs hs' st] by (simp add: forEach_call)
qed

lemma run_hooks_calls_upd [simp]:
  "run_hooks B hs (st\<lparr>calls := cs\<rparr>) = 
     (case dropWhile (\<lambda>h. \<not> raises B h) hs of
        [] \<Rightarrow> Return () (st\<lparr>calls := cs @ hs\<rparr>)
      | h # _ \<Rightarrow> Throw h (st\<lparr>calls := cs @ takeWhile (\<lambda>h. \<not> raises B h) hs @ [h]\<rparr>))"
  by (auto simp: run_hooks_def split: list.splits dest: dropWhile_Cons_ex)

lemma update_run:
  assumes "active (world st)" and "\<not> paused (world st)"
  shows "update B dt st = run_hooks B (update_plan dt st) st"
proof -
  let ?P = "\<lambda>st s. s_enabled (system_obj st s)"
  let ?Q = "\<lambda>st (x :: EntityId \<times> eref). e_active (entity_obj st (snd x))"
  have sys: "forEach (\<lambda>system st. if s_enabled (system_obj st system)
                 then call B (SystemUpdate system dt) st else Return () st) xs s
             = run_hooks B (map (\<lambda>s. SystemUpdate s dt) (filter (?P s) xs)) s" for xs s
    using forEach_guarded_call [of ?P B "\<lambda>s. SystemUpdate s dt" xs s]
    by (simp add: forEach_call)
  have ent: "forEach (\<lambda>(eid, entity) st. if e_active (entity_obj st entity)
                 then call B (EntityUpdate entity dt) st else Return () st) xs s
             = run_hooks B (map (\<lambda>x. EntityUpdate (snd x) dt) (filter (?Q s) xs)) s" for xs s
    using forEach_guarded_call [of ?Q B "\<lambda>x. EntityUpdate (snd x) dt" xs s]
    by (simp add: forEach_call case_prod_unfold)
  have plan: "update_plan dt st =
      map (\<lambda>s. SystemUpdate s dt) (filter (?P st) (systems (world st))) @
      map (\<lambda>x. EntityUpdate (snd x) dt) (filter (?Q st) (entities (world st)))"
    by (simp add: update_plan_def enabled_systems_def active_entities_def case_prod_unfold)
  have "andThen (run_hooks B hs st)
          (\<lambda>st. run_hooks B (map (\<lambda>x. EntityUpdate (snd x) dt)
                   (filter (?Q st) (entities (world st)))) st)
        = andThen (run_hooks B hs st)
          (run_hooks B (map (\<lambda>x. EntityUpdate (snd x) dt)
                   (filter (?Q st) (entities (world st)))))" for hs
    by (rule andThen_run_hooks_cong) simp
  then show ?thesis
    unfolding update_def plan run_hooks_append
    using assms by (simp add: sys ent)
qed

lemma fixedUpdate_run:
  assumes "active (world st)" and "\<not> paused (world st)"
  shows "fixedUpdate B dt st = run_hooks B (fixedUpdate_plan dt st) st"
  using assms
    forEach_guarded_call [of "\<lambda>st s. s_enabled (system_obj st s) \<and> s_fixedUpdate (system_obj st s)"
      B "\<lambda>s. SystemFixedUpdate s dt" "systems (world st)" st]
  by (simp add: fixedUpdate_def fixedUpdate_plan_def forEach_call)

lemma preRender_run:
  assumes "active (world st)" and "\<not> paused (world st)"
  shows "preRender B st = run_hooks B (preRender_plan st) st"
  using assms
    forEach_guarded_call [of "\<lambda>st s. s_enabled (system_obj st s) \<and> s_preRender (system_obj st s)"
      B SystemPreRender "systems (world st)" st]
  by (simp add: preRender_def preRender_plan_def forEach_call)

lemma postRender_run:
  assumes "active (world st)" and "\<not> paused (world st)"
  shows "postRender B st = run_hooks B (postRender_plan st) st"
  using assms
    forEach_guarded_call [of "\<lambda>st s. s_enabled (system_obj st s) \<and> s_postRender (system_obj st s)"
      B SystemPostRender "systems (world st)" st]
  by (simp add: postRender_def postRender_plan_def forEach_call)

lemma run_hooks_quiet:
  assumes "\<forall>h\<in>set hs. \<not> raises B h"
  shows "run_hooks B hs st = Return () (st\<lparr>calls := calls st @ hs\<rparr>)"
proof -
  have d: "dropWhile (\<lambda>h. \<not> raises B h) hs = []"
    using assms by simp
  show ?thesis by (simp add: run_hooks_def d)
qed

lemma run_hooks_first_fault:
  assumes "\<forall>h'\<in>set before. \<not> raises B h'" and "raises B h"
  shows "run_hooks B (before @ h # rest) st = Throw h (st\<lparr>calls := calls st @ before @ [h]\<rparr>)"
proof -
  have "dropWhile (\<lambda>h. \<not> raises B h) (before @ h # rest) = h # rest"
    using assms by (simp add: dropWhile_append2)
  moreover have "takeWhile (\<lambda>h. \<not> raises B h) (before @ h # rest) = before"
    using assms by (simp add: takeWhile_append2)
  ultimately show ?thesis by (simp add: run_hooks_def)
qed

lemma run_hooks_prefix:
  "\<exists>k. calls (state_of (run_hooks B hs st)) = calls st @ take k hs"
proof (cases "dropWhile (\<lambda>h. \<not> raises B h) hs")
  case Nil
  have "calls (state_of (run_hooks B hs st)) = calls st @ take (length hs) hs"
    by (simp add: run_hooks_def Nil)
  then show ?thesis by blast
next
  case (Cons h rest)
  let ?tw = "takeWhile (\<lambda>h. \<not> raises B h) hs"
  have "hs = ?tw @ h # rest"
    using Cons takeWhile_dropWhile_id [of "\<lambda>h. \<not> raises B h" hs] by simp
  then have "take (Suc (length ?tw)) hs = ?tw @ [h]"
    by (metis append.assoc append_Cons append_Nil append_eq_conv_conj length_append_singleton)
  then have "calls (state_of (run_hooks B hs st)) = calls st @ take (Suc (length ?tw)) hs"
    by (simp add: run_hooks_def Cons)
  then show ?thesis by blast
qed

lemma indexOf_None: "indexOf xs x = None \<longleftrightarrow> x \<notin> set xs"
  by (induction xs) (auto split: option.splits)

lemma splice1_indexOf: "indexOf xs x = Some i \<Longrightarrow> splice1 i xs = remove1 x xs"
  by (induction xs arbitrary: i) (auto simp: splice1_def split: option.splits if_splits)

lemma Scene_remove_remove1: "Scene_remove obj cs = remove1 obj cs"
proof (cases "indexOf cs obj")
  case None
  then have "obj \<notin> set cs" by (simp add: indexOf_None)
  then show ?thesis by (simp add: Scene_remove_def None remove1_idem)
next
  case (Some i)
  then show ?thesis by (simp add: Scene_remove_def splice1_indexOf)
qed

lemma clear_scene_empty: "clear_scene cs = []"
proof (induction cs rule: clear_scene.induct)
  case (1 children)
  show ?case
  proof (cases children)
    case Nil
    then show ?thesis by (simp add: clear_scene.simps [of "[]"])
  next
    case (Cons c cs)
    with 1 show ?thesis by (simp add: clear_scene.simps [of "c # cs"])
  qed
qed

lemma System_removeEntity_quiet:
  "\<not> raises B (SystemRemoveEntity s e) \<Longrightarrow>
   System_removeEntity B s e st =
     Return () (st\<lparr>calls := calls st @ [SystemRemoveEntity s e],
                  system_obj := (system_obj st)
                    (s := (system_obj st s)\<lparr>s_entities := s_entities (system_obj st s) - {e}\<rparr>)\<rparr>)"
  by (simp add: System_removeEntity_def call_returns)

lemma System_addEntity_quiet:
  "\<not> raises B (SystemAddEntity s e) \<Longrightarrow>
   System_addEntity B s e st =
     Return () (st\<lparr>calls := calls st @ [SystemAddEntity s e],
                  system_obj := (system_obj st)
                    (s := (system_obj st s)\<lparr>s_entities := insert e (s_entities (system_obj st s))\<rparr>)\<rparr>)"
  by (simp add: System_addEntity_def call_returns)

lemma forEach_removeEntity_quiet:
  assumes "\<forall>s\<in>set ss. \<not> raises B (SystemRemoveEntity s e)"
  shows "forEach (\<lambda>s. System_removeEntity B s e) ss st =
           Return () (st\<lparr>calls := calls st @ map (\<lambda>s. SystemRemoveEntity s e) ss,
                        system_obj := untrack e ss (system_obj st)\<rparr>)"
  using assms
proof (induction ss arbitrary: st)
  case Nil
  have "untrack e [] (system_obj st) = system_obj st"
    by (simp add: untrack_def)
  then show ?case by simp
next
  case (Cons x xs)
  have "untrack e xs ((system_obj st)
          (x := (system_obj st x)\<lparr>s_entities := s_entities (system_obj st x) - {e}\<rparr>))
        = untrack e (x # xs) (system_obj st)"
    by (auto simp: untrack_def fun_eq_iff)
  with Cons show ?case
    by (simp add: System_removeEntity_quiet)
qed

lemma sort_key_stable': "filter (\<lambda>x. f k = f x) (sort_key f xs) = filter (\<lambda>x. f k = f x) xs"
proof -
  have "(\<lambda>x. f k = f x) = (\<lambda>y. f y = f k)" by auto
  then show ?thesis by (simp only: sort_key_stable)
qed

lemma sort_key_snoc_sorted: "sort_key f (sort_key f xs @ [s]) = sort_key f (xs @ [s])"
proof -
  have "sort_key f (xs @ [s]) = sort_key f (sort_key f xs @ [s])"
  proof (rule properties_for_sort_key)
    show "mset (sort_key f (sort_key f xs @ [s])) = mset (xs @ [s])" by simp
    show "sorted (map f (sort_key f (sort_key f xs @ [s])))" by simp
    show "filter (\<lambda>x. f k = f x) (sort_key f (sort_key f xs @ [s]))
          = filter (\<lambda>x. f k = f x) (xs @ [s])" for k
      by (simp only: sort_key_stable' filter_append)
  qed
  then show ?thesis by simp
qed

lemma sort_key_remove1: "sort_key f (remove1 s xs) = remove1 s (sort_key f xs)"
proof (rule properties_for_sort_key)
  show "mset (remove1 s (sort_key f xs)) = mset (remove1 s xs)" by simp
  show "sorted (map f (remove1 s (sort_key f xs)))" by (simp add: sorted_map_remove1)
  show "filter (\<lambda>x. f k = f x) (remove1 s (sort_key f xs))
        = filter (\<lambda>x. f k = f x) (remove1 s xs)" for k
    by (simp only: filter_remove1 sort_key_stable')
qed

lemma forEach_preserves:
  assumes "\<And>x st. I st \<Longrightarrow> I (state_of (f x st))" and "I st"
  shows "I (state_of (forEach f xs st))"
  using assms(2)
proof (induction xs arbitrary: st)
  case Nil
  then show ?case by simp
next
  case (Cons x xs)
  show ?case
  proof (cases "f x st")
    case (Return u st')
    with assms(1) [OF Cons.prems, of x] have "I st'" by simp
    with Return show ?thesis by (simp add: Cons.IH)
  next
    case (Throw h st')
    with assms(1) [OF Cons.prems, of x] show ?thesis by simp
  qed
qed

lemma priority_eqI:
  "(\<And>s. s_priority (system_obj st' s) = s_priority (system_obj st s)) \<Longrightarrow>
     priority st' = priority st"
  by (auto simp: priority_def fun_eq_iff)

lemma priority_upd [simp]:
  "priority (st\<lparr>world := w\<rparr>) = priority st"
  "priority (st\<lparr>calls := cs\<rparr>) = priority st"
  "priority (st\<lparr>scene := sc\<rparr>) = priority st"
  by (rule priority_eqI, simp)+

lemma call_state: "state_of (call B h st) = st\<lparr>calls := calls st @ [h]\<rparr>"
  by (simp add: call_def Let_def)

lemma System_addEntity_keeps:
  "world (state_of (System_addEntity B s e st)) = world st \<and>
   priority (state_of (System_addEntity B s e st)) = priority st \<and>
   entity_obj (state_of (System_addEntity B s e st)) = entity_obj st"
  by (cases "raises B (SystemAddEntity s e)")
     (auto simp: System_addEntity_def call_raises call_returns priority_def fun_eq_iff)

lemma addSystem_systems:
  "systems (world (state_of (addSystem B s st))) =
     (if s \<in> set (systems (world st)) then systems (world st)
      else sort_key (priority st) (systems (world st) @ [s])) \<and>
   priority (state_of (addSystem B s st)) = priority st"
proof (cases "s \<in> set (systems (world st))")
  case True
  then show ?thesis by (simp add: addSystem_def)
next
  case False
  let ?st1 = "st\<lparr>system_obj := (system_obj st)(s := (system_obj st s)\<lparr>s_world := Some (self st)\<rparr>)\<rparr>"
  let ?st3 = "sortSystems (?st1\<lparr>world := (world ?st1)\<lparr>systems := systems (world ?st1) @ [s]\<rparr>\<rparr>)"
  let ?I = "\<lambda>st'. world st' = world ?st3 \<and> priority st' = priority st"
  have p1: "priority ?st1 = priority st"
    by (auto simp: priority_def fun_eq_iff)
  have w3: "systems (world ?st3) = sort_key (priority st) (systems (world st) @ [s])"
    using p1 by (simp add: sortSystems_def)
  have I3: "?I ?st3"
    using p1 by (simp add: sortSystems_def)
  have Icall: "?I (state_of (call B (SystemInitialize s) ?st3))"
    using I3 by (simp add: call_state)
  have loop: "?I (state_of (forEach (\<lambda>(eid, entity) st.
                         if checkEntityCompatibility B s entity
                         then System_addEntity B s entity st else Return () st) xs st'))"
    if "?I st'" for xs st'
    by (rule forEach_preserves [where I = ?I]) (use that in \<open>auto simp: System_addEntity_keeps\<close>)
  have "?I (state_of (addSystem B s st))"
  proof (cases "initialized (world ?st3)")
    case False
    with \<open>s \<notin> set (systems (world st))\<close> I3 show ?thesis
      by (simp add: addSystem_def Let_def)
  next
    case True
    show ?thesis
    proof (cases "call B (SystemInitialize s) ?st3")
      case (Return u st')
      with Icall have "?I st'" by simp
      from loop [OF this] Return True \<open>s \<notin> set (systems (world st))\<close> show ?thesis
        by (simp add: addSystem_def Let_def)
    next
      case (Throw h st')
      with Icall True \<open>s \<notin> set (systems (world st))\<close> show ?thesis
        by (simp add: addSystem_def Let_def)
    qed
  qed
  with w3 False show ?thesis by simp
qed

lemma removeSystem_systems:
  "systems (world (state_of (removeSystem B s st))) = remove1 s (systems (world st)) \<and>
   priority (state_of (removeSystem B s st)) = priority st"
proof (cases "indexOf (systems (world st)) s")
  case None
  then have "s \<notin> set (systems (world st))" by (simp add: indexOf_None)
  then show ?thesis by (simp add: removeSystem_def None remove1_idem)
next
  case (Some i)
  then show ?thesis
    by (cases "raises B (SystemDestroy s)")
       (simp_all add: removeSystem_def splice1_indexOf call_raises call_returns)
qed

lemma run_system_ops_invariant:
  assumes "systems (world st) = sort_key (priority st) ins"
  shows "systems (world (fold (apply_system_op B) ops st)) = sort_key (priority st) (fold insert_op ops ins) \<and>
         priority (fold (apply_system_op B) ops st) = priority st"
  using assms
proof (induction ops arbitrary: st ins)
  case Nil
  then show ?case by simp
next
  case (Cons op ops)
  have step: "systems (world (apply_system_op B op st)) = sort_key (priority st) (insert_op op ins) \<and>
        priority (apply_system_op B op st) = priority st"
  proof (cases op)
    case (AddSystem s)
    then show ?thesis
      using Cons.prems addSystem_systems [of B s st]
      by (simp add: sort_key_snoc_sorted)
  next
    case (RemoveSystem s)
    then show ?thesis
      using Cons.prems removeSystem_systems [of B s st]
      by (simp add: sort_key_remove1)
  qed
  then have "systems (world (apply_system_op B op st))
      = sort_key (priority (apply_system_op B op st)) (insert_op op ins)"
    by simp
  from Cons.IH [OF this] step show ?case by simp
qed

lemma forEach_map: "forEach (\<lambda>x. f (g x)) xs st = forEach f (map g xs) st"
  by (induction xs arbitrary: st) (simp_all add: andThen_def bind_def split: result.splits)

lemma forEach_option_call:
  assumes "\<And>st cs x. F (st\<lparr>calls := cs\<rparr>) x = F st x"
  shows "forEach (\<lambda>x st. case F st x of None \<Rightarrow> Return () st | Some h \<Rightarrow> call B h st) xs st
           = forEach (call B) (List.map_filter (F st) xs) st"
proof (induction xs arbitrary: st)
  case Nil
  show ?case by (simp add: List.map_filter_simps)
next
  case (Cons x xs)
  show ?case
  proof (cases "F st x")
    case None
    then show ?thesis by (simp add: Cons.IH List.map_filter_simps)
  next
    case (Some h)
    show ?thesis
    proof (cases "raises B h")
      case True
      with Some show ?thesis by (simp add: call_raises List.map_filter_simps)
    next
      case False
      with Some show ?thesis by (simp add: call_returns Cons.IH assms List.map_filter_simps)
    qed
  qed
qed

lemma map_filter_keys:
  assumes "distinct (map fst m)"
  shows "List.map_filter (\<lambda>k. map_option g (map_of m k)) (map fst m) = map (\<lambda>(k, v). g v) m"
proof -
  have "map_of m (fst p) = Some (snd p)" if "p \<in> set m" for p
    using assms that by (cases p) simp
  then have "List.map_filter (\<lambda>k. map_option g (map_of m k)) (map fst m)
        = map (\<lambda>p. g (snd p)) m"
    by (simp add: List.map_filter_def filter_map o_def cong: map_cong filter_cong)
  then show ?thesis by (simp add: case_prod_unfold)
qed

lemma run_hooks_throws:
  assumes "\<exists>h\<in>set hs. raises B h"
  shows "\<exists>h st'. run_hooks B hs st = Throw h st'"
proof (cases "dropWhile (\<lambda>h. \<not> raises B h) hs")
  case Nil
  then have "\<forall>h\<in>set hs. \<not> raises B h" by (simp add: dropWhile_eq_Nil_conv)
  with assms show ?thesis by blast
next
  case (Cons h rest)
  then show ?thesis by (simp add: run_hooks_def Cons)
qed

lemma andThen_throws:
  "\<exists>h st'. r = Throw h st' \<Longrightarrow> \<exists>h st'. andThen r k = Throw h st'"
  by auto

lemma destroy_entities_loop:
  assumes "distinct (map fst (entities (world st)))"
  shows "forEach (\<lambda>eid st.
            case Map_get (entities (world st)) eid of
              None \<Rightarrow> Return () st
            | Some entity \<Rightarrow> call B (EntityDestroy entity) st)
          (map fst (entities (world st))) st
         = run_hooks B (map (\<lambda>(eid, e). EntityDestroy e) (entities (world st))) st"
proof -
  let ?F = "\<lambda>st eid. map_option EntityDestroy (Map_get (entities (world st)) eid)"
  have "forEach (\<lambda>eid st.
            case Map_get (entities (world st)) eid of
              None \<Rightarrow> Return () st
            | Some entity \<Rightarrow> call B (EntityDestroy entity) st) xs st
        = forEach (\<lambda>x st. case ?F st x of None \<Rightarrow> Return () st | Some h \<Rightarrow> call B h st) xs st" for xs
    by (rule arg_cong [where f = "\<lambda>f. forEach f xs st"]) (auto simp: fun_eq_iff split: option.splits)
  then show ?thesis
    using forEach_option_call [of ?F B "map fst (entities (world st))" st]
      map_filter_keys [OF assms, of EntityDestroy]
    by (simp add: forEach_call Map_get_def)
qed

lemma destroy_unfold:
  assumes "distinct (map fst (entities (world st)))"
  shows "destroy B st =
     andThen (run_hooks B (map (\<lambda>(eid, e). EntityDestroy e) (entities (world st))) st)
       (\<lambda>st'. andThen
            (run_hooks B (map SystemDestroy (systems (world st'))) (st'\<lparr>world := (world st')\<lparr>entities := []\<rparr>\<rparr>))
            (\<lambda>st''. Return ()
               (st''\<lparr>scene := [],
                     world := (world st'')\<lparr>systems := [], active := False, initialized := False\<rparr>\<rparr>)))"
  unfolding destroy_def destroy_entities_loop [OF assms]
  by (simp add: Let_def forEach_map [of "call B" SystemDestroy] forEach_call clear_scene_empty)

lemma forEach_returns:
  assumes "\<And>x st. f x st = Return () (g x st)"
  shows "forEach f xs st = Return () (fold g xs st)"
  by (induction xs arbitrary: st) (simp_all add: assms)

lemma Map_set_fresh: "\<not> Map_has m k \<Longrightarrow> Map_set m k v = m @ [(k, v)]"
  by (induction m) (auto simp: Map_has_def)

lemma offer_step:
  assumes "\<forall>h. \<not> raises B h"
  shows "(if checkEntityCompatibility B s e then System_addEntity B s e st else Return () st)
           = Return () (offer B e s st)"
  using assms by (simp add: offer_def System_addEntity_quiet)

lemma offer_frame [simp]:
  "world (offer B e s st) = world st" "entity_obj (offer B e s st) = entity_obj st"
  "scene (offer B e s st) = scene st"
  by (simp_all add: offer_def)

lemma fold_offer_systems_frame [simp]:
  "world (fold (offer B e) ss st) = world st"
  "entity_obj (fold (offer B e) ss st) = entity_obj st"
  by (induction ss arbitrary: st) simp_all

lemma fold_offer_entities_frame [simp]:
  "world (fold (\<lambda>p. offer B (snd p) s) m st) = world st"
  "entity_obj (fold (\<lambda>p. offer B (snd p) s) m st) = entity_obj st"
  by (induction m arbitrary: st) simp_all

lemma tracked_offer:
  "tracked (offer B e s st) S =
     (if S = s \<and> checkEntityCompatibility B s e then insert e (tracked st S) else tracked st S)"
  by (simp add: offer_def tracked_def)

lemma tracked_fold_offer_systems:
  "tracked (fold (offer B e) ss st) S =
     (if S \<in> set ss \<and> checkEntityCompatibility B S e then insert e (tracked st S)
      else tracked st S)"
  by (induction ss arbitrary: st) (auto simp: tracked_offer)

lemma tracked_fold_offer_entities:
  "tracked (fold (\<lambda>p. offer B (snd p) s) m st) S =
     (if S = s then tracked st S \<union> {e \<in> snd ` set m. checkEntityCompatibility B s e}
      else tracked st S)"
  by (induction m arbitrary: st) (auto simp: tracked_offer)

lemma tracked_upd [simp]:
  "tracked (st\<lparr>world := w\<rparr>) S = tracked st S"
  "tracked (st\<lparr>calls := cs\<rparr>) S = tracked st S"
  "tracked (st\<lparr>scene := sc\<rparr>) S = tracked st S"
  by (simp_all add: tracked_def)

lemma addEntity_quiet:
  assumes q: "\<forall>h. \<not> raises B h"
  shows "world (state_of (addEntity B e st)) =
           (world st)\<lparr>entities :=
              (if Map_has (entities (world st)) (e_name (entity_obj st e)) then entities (world st)
               else entities (world st) @ [(e_name (entity_obj st e), e)])\<rparr> \<and>
         entity_obj (state_of (addEntity B e st)) = entity_obj st \<and>
         tracked (state_of (addEntity B e st)) S =
           (if \<not> Map_has (entities (world st)) (e_name (entity_obj st e)) \<and>
               S \<in> set (systems (world st)) \<and> checkEntityCompatibility B S e
            then insert e (tracked st S) else tracked st S)"
proof (cases "Map_has (entities (world st)) (e_name (entity_obj st e))")
  case True
  then show ?thesis by (simp add: addEntity_def)
next
  case False
  have loop: "forEach (\<lambda>system st.
                  if checkEntityCompatibility B system e
                  then System_addEntity B system e st else Return () st) ss st'
              = Return () (fold (offer B e) ss st')" for ss st'
    by (rule forEach_returns) (rule offer_step [OF q])
  show ?thesis
    using False q
    by (simp add: addEntity_def Let_def loop Map_set_fresh call_returns
        tracked_fold_offer_systems)
qed

lemma addSystem_quiet:
  assumes q: "\<forall>h. \<not> raises B h" and i: "initialized (world st)"
    and n: "S \<notin> set (systems (world st))"
  shows "world (state_of (addSystem B S st)) =
           (world st)\<lparr>systems := sort_key (priority st) (systems (world st) @ [S])\<rparr> \<and>
         entity_obj (state_of (addSystem B S st)) = entity_obj st \<and>
         tracked (state_of (addSystem B S st)) S =
           tracked st S \<union> {e \<in> snd ` set (entities (world st)). checkEntityCompatibility B S e}"
proof -
  have loop: "forEach (\<lambda>(eid, entity) st.
                  if checkEntityCompatibility B S entity
                  then System_addEntity B S entity st else Return () st) m st'
              = Return () (fold (\<lambda>p. offer B (snd p) S) m st')" for m st'
    by (rule forEach_returns) (simp add: case_prod_unfold offer_step [OF q])
  have p: "priority (st\<lparr>system_obj := (system_obj st)
        (S := (system_obj st S)\<lparr>s_world := Some (self st)\<rparr>)\<rparr>) = priority st"
    by (rule priority_eqI) simp
  show ?thesis
    using q i n
    by (simp add: addSystem_def Let_def sortSystems_def p call_returns loop
        tracked_fold_offer_entities) (simp add: tracked_def)
qed

lemma addEntities_Cons:
  "addEntities B (e # es) st = addEntities B es (state_of (addEntity B e st))"
  by (simp add: addEntities_def)

lemma addEntities_frame:
  assumes q: "\<forall>h. \<not> raises B h"
  shows "systems (world (addEntities B es st)) = systems (world st) \<and>
         initialized (world (addEntities B es st)) = initialized (world st) \<and>
         entity_obj (addEntities B es st) = entity_obj st \<and>
         snd ` set (entities (world st)) \<subseteq> snd ` set (entities (world (addEntities B es st))) \<and>
         tracked st S \<subseteq> tracked (addEntities B es st) S"
proof (induction es arbitrary: st)
  case Nil
  show ?case by (simp add: addEntities_def)
next
  case (Cons e es)
  let ?st1 = "state_of (addEntity B e st)"
  let ?fin = "addEntities B es ?st1"
  note a = addEntity_quiet [OF q, of e st S]
  have a1: "systems (world ?st1) = systems (world st)"
    and a2: "initialized (world ?st1) = initialized (world st)"
    and a3: "entity_obj ?st1 = entity_obj st"
    and a4: "snd ` set (entities (world st)) \<subseteq> snd ` set (entities (world ?st1))"
    and a5: "tracked st S \<subseteq> tracked ?st1 S"
    using a by auto
  from Cons.IH [of ?st1]
  have i1: "systems (world ?fin) = systems (world ?st1)"
    and i2: "initialized (world ?fin) = initialized (world ?st1)"
    and i3: "entity_obj ?fin = entity_obj ?st1"
    and i4: "snd ` set (entities (world ?st1)) \<subseteq> snd ` set (entities (world ?fin))"
    and i5: "tracked ?st1 S \<subseteq> tracked ?fin S"
    by blast+
  show ?case
    unfolding addEntities_Cons
  proof (intro conjI)
    show "systems (world ?fin) = systems (world st)" using i1 a1 by simp
    show "initialized (world ?fin) = initialized (world st)" using i2 a2 by simp
    show "entity_obj ?fin = entity_obj st" using i3 a3 by simp
    show "snd ` set (entities (world st)) \<subseteq> snd ` set (entities (world ?fin))"
      using a4 i4 by (rule subset_trans)
    show "tracked st S \<subseteq> tracked ?fin S"
      using a5 i5 by (rule subset_trans)
  qed
qed

lemma addEntities_not_registered:
  assumes q: "\<forall>h. \<not> raises B h" and "S \<notin> set (systems (world st))"
  shows "tracked (addEntities B es st) S = tracked st S"
  using assms(2)
proof (induction es arbitrary: st)
  case Nil
  show ?case by (simp add: addEntities_def)
next
  case (Cons e es)
  let ?st1 = "state_of (addEntity B e st)"
  note a = addEntity_quiet [OF q, of e st S]
  from a Cons.prems have t: "tracked ?st1 S = tracked st S"
    and n: "S \<notin> set (systems (world ?st1))"
    by auto
  from Cons.IH [OF n] t show ?case
    unfolding addEntities_Cons by simp
qed

lemma addEntities_registered:
  assumes q: "\<forall>h. \<not> raises B h" and "S \<in> set (systems (world st))"
  shows "tracked (addEntities B es st) S \<union>
           {e \<in> snd ` set (entities (world st)). checkEntityCompatibility B S e}
         = tracked st S \<union>
           {e \<in> snd ` set (entities (world (addEntities B es st))). checkEntityCompatibility B S e}"
  using assms(2)
proof (induction es arbitrary: st)
  case Nil
  show ?case by (simp add: addEntities_def)
next
  case (Cons e es)
  let ?st1 = "state_of (addEntity B e st)"
  let ?fin = "addEntities B es ?st1"
  note a = addEntity_quiet [OF q, of e st S]
  note f = addEntities_frame [OF q, of es ?st1 S]
  from a Cons.prems have s1: "S \<in> set (systems (world ?st1))" by simp
  note ih = Cons.IH [OF s1]
  show ?case
  proof (cases "Map_has (entities (world st)) (e_name (entity_obj st e))")
    case True
    with a have "world ?st1 = world st" "tracked ?st1 S = tracked st S" by simp_all
    with ih show ?thesis by (simp only: addEntities_Cons)
  next
    case False
    with a have reg1: "snd ` set (entities (world ?st1)) = insert e (snd ` set (entities (world st)))"
      by simp
    show ?thesis
    proof (cases "checkEntityCompatibility B S e")
      case False
      with a have "tracked ?st1 S = tracked st S" by simp
      with ih reg1 False show ?thesis
        by (simp only: addEntities_Cons) auto
    next
      case True
      with a \<open>\<not> Map_has (entities (world st)) (e_name (entity_obj st e))\<close> Cons.prems
      have t1: "tracked ?st1 S = insert e (tracked st S)" by simp
      from f t1 have "e \<in> tracked ?fin S" by auto
      moreover from f reg1 have "e \<in> snd ` set (entities (world ?fin))" by auto
      ultimately show ?thesis
        using ih reg1 t1 True by (simp only: addEntities_Cons) auto
    qed
  qed
qed

lemma addEntities_fresh_registry:
  assumes q: "\<forall>h. \<not> raises B h"
    and "distinct (map (\<lambda>e. e_name (entity_obj st e)) es)"
    and "\<forall>e\<in>set es. \<not> Map_has (entities (world st)) (e_name (entity_obj st e))"
  shows "entities (world (addEntities B es st)) =
           entities (world st) @ map (\<lambda>e. (e_name (entity_obj st e), e)) es"
  using assms(2,3)
proof (induction es arbitrary: st)
  case Nil
  show ?case by (simp add: addEntities_def)
next
  case (Cons e es)
  let ?st1 = "state_of (addEntity B e st)"
  note a = addEntity_quiet [OF q, of e st 0]
  from a Cons.prems have reg1: "entities (world ?st1) = entities (world st) @ [(e_name (entity_obj st e), e)]"
    and obj1: "entity_obj ?st1 = entity_obj st"
    by simp_all
  have "distinct (map (\<lambda>e. e_name (entity_obj ?st1 e)) es)"
    using Cons.prems obj1 by simp
  moreover have "\<forall>x\<in>set es. \<not> Map_has (entities (world ?st1)) (e_name (entity_obj ?st1 x))"
  proof
    fix x
    assume x: "x \<in> set es"
    from Cons.prems(1)
    have "e_name (entity_obj st e) \<notin> (\<lambda>e. e_name (entity_obj st e)) ` set es"
      by simp
    with x have "e_name (entity_obj st x) \<noteq> e_name (entity_obj st e)"
      by (metis imageI)
    moreover from x Cons.prems(2) have "\<not> Map_has (entities (world st)) (e_name (entity_obj st x))"
      by simp
    ultimately show "\<not> Map_has (entities (world ?st1)) (e_name (entity_obj ?st1 x))"
      by (simp add: reg1 obj1 Map_has_def)
  qed
  ultimately show ?case
    using Cons.IH [of ?st1] reg1 obj1 by (simp only: addEntities_Cons) simp
qed

lemma addEntities_registry_cong:
  assumes q: "\<forall>h. \<not> raises B h"
    and "entities (world st1) = entities (world st2)" and "entity_obj st1 = entity_obj st2"
  shows "entities (world (addEntities B es st1)) = entities (world (addEntities B es st2))"
  using assms(2,3)
proof (induction es arbitrary: st1 st2)
  case Nil
  then show ?case by (simp add: addEntities_def)
next
  case (Cons e es)
  note a1 = addEntity_quiet [OF q, of e st1 0]
  note a2 = addEntity_quiet [OF q, of e st2 0]
  have "entities (world (state_of (addEntity B e st1))) = entities (world (state_of (addEntity B e st2)))"
    "entity_obj (state_of (addEntity B e st1)) = entity_obj (state_of (addEntity B e st2))"
    using a1 a2 Cons.prems by simp_all
  from Cons.IH [OF this] show ?case
    unfolding addEntities_Cons .
qed

lemma union_absorb:
  "X \<union> C0 = T \<union> C0 \<union> C1 \<Longrightarrow> C0 \<subseteq> X \<Longrightarrow> C0 \<subseteq> C1 \<Longrightarrow> X = T \<union> C1"
  by blast

lemma System_removeEntity_raises:
  "raises B (SystemRemoveEntity s e) \<Longrightarrow>
   System_removeEntity B s e st =
     Throw (SystemRemoveEntity s e) (st\<lparr>calls := calls st @ [SystemRemoveEntity s e]\<rparr>)"
  by (simp add: System_removeEntity_def call_raises)

lemma forEach_removeEntity_first_fault:
  assumes "\<forall>s'\<in>set pre. \<not> raises B (SystemRemoveEntity s' e)"
    and "raises B (SystemRemoveEntity s e)"
  shows "forEach (\<lambda>s. System_removeEntity B s e) (pre @ s # post) st =
           Throw (SystemRemoveEntity s e)
             (st\<lparr>calls := calls st @ map (\<lambda>s. SystemRemoveEntity s e) (pre @ [s]),
                  system_obj := untrack e pre (system_obj st)\<rparr>)"
  by (simp add: forEach_append forEach_removeEntity_quiet [OF assms(1)]
      System_removeEntity_raises [OF assms(2)])

section \<open>The claims\<close>

text \<open>
  Claim C1 at a world with one parent/child edge: the registry holds \<^verbatim>\<open>P\<close> and its child
  \<^verbatim>\<open>C\<close>. \<^verbatim>\<open>toJSON\<close> writes the root \<^verbatim>\<open>P\<close> only, with \<^verbatim>\<open>C\<close> in its child-id list.
  \<^verbatim>\<open>fromJSON\<close> on a fresh world creates an entity for each key of the snapshot, that is
  for \<^verbatim>\<open>P\<close>; its third loop looks the child id \<^verbatim>\<open>C\<close> up among these keys, finds nothing
  and links nothing. The restored world has the same roots, but neither the entity
  \<^verbatim>\<open>C\<close> nor the edge from \<^verbatim>\<open>P\<close> to \<^verbatim>\<open>C\<close>.
\<close>

theorem roundtrip_loses_children:
  "map fst (entities (world example_tree)) = [''P'', ''C''] \<and>
   roots example_tree = [''P''] \<and>
   edges example_tree = [(''P'', ''C'')] \<and>
   toJSON example_tree =
     \<lparr>d_wname = Some ''BaseWorld'', d_wactive = Some True,
      d_entities = Some [(''P'', \<lparr>d_name = Some ''P'', d_active = Some True,
                                 d_children = Some [''C'']\<rparr>)]\<rparr> \<and>
   result_value (fromJSON quiet (toJSON example_tree) example_store) = Some () \<and>
   map fst (entities (world (state_of (fromJSON quiet (toJSON example_tree) example_store)))) = [''P''] \<and>
   roots (state_of (fromJSON quiet (toJSON example_tree) example_store)) = [''P''] \<and>
   edges (state_of (fromJSON quiet (toJSON example_tree) example_store)) = [] \<and>
   getEntity ''C'' (state_of (fromJSON quiet (toJSON example_tree) example_store)) = None"
proof -
  have j: "toJSON example_tree =
     \<lparr>d_wname = Some ''BaseWorld'', d_wactive = Some True,
      d_entities = Some [(''P'', \<lparr>d_name = Some ''P'', d_active = Some True,
                                 d_children = Some [''C'']\<rparr>)]\<rparr>"
    by (simp add: toJSON_def Entity_toJSON_def ownKeys_def example_tree_def example_defs)
  have r: "fromJSON quiet (toJSON example_tree) example_store =
     Return () (example_store
       \<lparr>world := new_World\<lparr>entities := [(''P'', 10)]\<rparr>,
        scene := [10],
        entity_obj := (entity_obj example_store)(10 := mk_entity ''P'' True None [] 10),
        next_ref := 11\<rparr>)"
    unfolding j
    by (simp add: fromJSON_def createEntity_def new_BaseEntity_def addEntity_def
        fromJSON_apply_def fromJSON_link_def Entity_fromJSON_def Map_has_def Map_get_def
        Scene_add_def example_defs Let_def)
  show ?thesis
    apply (simp only: r)
    apply (simp only: j)
    apply (simp add: roots_def edges_def getEntity_def Map_get_def example_tree_def example_defs)
    done
qed

text \<open>
  Claim C2 says ``for every world''. In a world that is not initialized, \<^verbatim>\<open>addSystem\<close>
  does not offer the registered entities to the new system (the guard
  \<^verbatim>\<open>if (this.initialized)\<close>, line 121), and \<^verbatim>\<open>initialize()\<close> does not either: entity 1,
  which system 2 accepts, is tracked when it is added after the system and is not
  tracked when it was added before.
\<close>

theorem tracked_subset_uninitialized_counterexample:
  "tracked (state_of (addSystem quiet 2 (addEntities quiet [1] example_store))) 2 = {} \<and>
   tracked (addEntities quiet [1] (state_of (addSystem quiet 2 example_store))) 2 = {1} \<and>
   checkEntityCompatibility quiet 2 1 \<and>
   tracked (state_of (initialize quiet
      (state_of (addSystem quiet 2 (addEntities quiet [1] example_store))))) 2 = {}"
  by (simp add: addEntities_def addSystem_def addEntity_def initialize_def sortSystems_def
      priority_def System_addEntity_def call_def Map_has_def Scene_add_def tracked_def
      example_defs Let_def)

text \<open>
  Claim C2 as amended: in an initialized world, for hooks that do not raise and a system
  \<open>S\<close> that is not registered yet, registering \<open>S\<close> after the entities \<open>es\<close> and
  registering the entities after \<open>S\<close> leave \<open>S\<close> with the same tracked subset: what
  it tracked before, and every registered entity that \<open>S\<close> accepts. When the world had
  no entities, \<open>S\<close> tracked nothing and the names of \<open>es\<close> are distinct, this is
  exactly the set of the entities of \<open>es\<close> that \<open>S\<close> accepts.
\<close>

theorem tracked_subset_order_independent:
  assumes "\<forall>h. \<not> raises B h" and "initialized (world st)" and "S \<notin> set (systems (world st))"
  shows "tracked (state_of (addSystem B S (addEntities B es st))) S
           = tracked (addEntities B es (state_of (addSystem B S st))) S \<and>
         tracked (state_of (addSystem B S (addEntities B es st))) S
           = tracked st S \<union>
             {e \<in> snd ` set (entities (world (addEntities B es st))). checkEntityCompatibility B S e} \<and>
         (entities (world st) = [] \<and> tracked st S = {} \<and>
          distinct (map (\<lambda>e. e_name (entity_obj st e)) es) \<longrightarrow>
            tracked (state_of (addSystem B S (addEntities B es st))) S
              = {e \<in> set es. checkEntityCompatibility B S e})"
proof -
  note q = assms(1)
  let ?EA = "addEntities B es st"
  let ?A = "state_of (addSystem B S ?EA)"
  let ?SB = "state_of (addSystem B S st)"
  let ?B = "addEntities B es ?SB"
  let ?C = "\<lambda>m. {e \<in> snd ` set m. checkEntityCompatibility B S e}"
  note fA = addEntities_frame [OF q, of es st S]
  have A0: "initialized (world ?EA)" "S \<notin> set (systems (world ?EA))"
    using fA assms by simp_all
  have tA0: "tracked ?EA S = tracked st S"
    using addEntities_not_registered [OF q assms(3)] .
  have tA: "tracked ?A S = tracked st S \<union> ?C (entities (world ?EA))"
    using addSystem_quiet [OF q A0] tA0 by simp
  note sB = addSystem_quiet [OF q assms(2,3)]
  have B0: "S \<in> set (systems (world ?SB))" "entities (world ?SB) = entities (world st)"
    "entity_obj ?SB = entity_obj st"
    "tracked ?SB S = tracked st S \<union> ?C (entities (world st))"
    using sB by simp_all
  have reg: "entities (world ?B) = entities (world ?EA)"
    using addEntities_registry_cong [OF q B0(2,3)] .
  note fB = addEntities_frame [OF q, of es ?SB S]
  have "tracked ?B S \<union> ?C (entities (world ?SB)) = tracked ?SB S \<union> ?C (entities (world ?B))"
    using addEntities_registered [OF q B0(1)] .
  then have u1: "tracked ?B S \<union> ?C (entities (world st))
      = tracked st S \<union> ?C (entities (world st)) \<union> ?C (entities (world ?EA))"
    by (simp only: B0(2,4) reg)
  have "tracked ?SB S \<subseteq> tracked ?B S"
    using fB by blast
  then have u2: "?C (entities (world st)) \<subseteq> tracked ?B S"
    unfolding B0(4) by blast
  have "snd ` set (entities (world ?SB)) \<subseteq> snd ` set (entities (world ?B))"
    using fB by blast
  then have u3: "?C (entities (world st)) \<subseteq> ?C (entities (world ?EA))"
    unfolding B0(2) reg by blast
  have tB: "tracked ?B S = tracked st S \<union> ?C (entities (world ?EA))"
    using u1 u2 u3 by (rule union_absorb)
  have fresh: "tracked ?A S = {e \<in> set es. checkEntityCompatibility B S e}"
    if "entities (world st) = []" "tracked st S = {}"
      "distinct (map (\<lambda>e. e_name (entity_obj st e)) es)"
  proof -
    have "entities (world ?EA) = map (\<lambda>e. (e_name (entity_obj st e), e)) es"
      using addEntities_fresh_registry [OF q that(3), of ] that(1)
      by (simp add: Map_has_def)
    then have "snd ` set (entities (world ?EA)) = set es"
      by (simp add: image_image)
    with tA that(2) show ?thesis by simp
  qed
  from tA tB fresh show ?thesis by simp
qed

text \<open>
  System 2 accepts entity 1 and not entity 3; in both orders it tracks entity 1.
\<close>

theorem tracked_subset_order_independent_witness:
  "tracked (state_of (addSystem selective 2 (addEntities selective [1, 3] example_initialized))) 2 = {1} \<and>
   tracked (addEntities selective [1, 3] (state_of (addSystem selective 2 example_initialized))) 2 = {1}"
proof -
  have h: "\<forall>h. \<not> raises selective h" "initialized (world example_initialized)"
    "2 \<notin> set (systems (world example_initialized))"
    by (simp_all add: selective_def example_initialized_def example_defs)
  have f: "entities (world example_initialized) = [] \<and> tracked example_initialized 2 = {} \<and>
      distinct (map (\<lambda>e. e_name (entity_obj example_initialized e)) [1, 3])"
    by (simp add: example_initialized_def example_defs tracked_def)
  have c: "{e \<in> set [1, 3]. checkEntityCompatibility selective 2 e} = {1}"
    by (auto simp: selective_def)
  note T = tracked_subset_order_independent [OF h, of "[1, 3]"]
  from T have same:
    "tracked (state_of (addSystem selective 2 (addEntities selective [1, 3] example_initialized))) 2
       = tracked (addEntities selective [1, 3] (state_of (addSystem selective 2 example_initialized))) 2"
    by (rule conjunct1)
  from T f have
    "tracked (state_of (addSystem selective 2 (addEntities selective [1, 3] example_initialized))) 2
       = {e \<in> set [1, 3]. checkEntityCompatibility selective 2 e}"
    by blast
  with c have
    "tracked (state_of (addSystem selective 2 (addEntities selective [1, 3] example_initialized))) 2 = {1}"
    by (simp only:)
  with same show ?thesis by (simp only:)
qed

text \<open>
  Claim C3 says that a hook that raises during \<^verbatim>\<open>World.update\<close> is isolated: the fault
  is logged, the other systems and entities are still updated in that frame, and nothing
  propagates. \<^verbatim>\<open>World.ts\<close> has no \<^verbatim>\<open>try\<close>/\<^verbatim>\<open>catch\<close>: in the example world, whose
  systems 2 and 1 are enabled and whose entity 1 is active, the update hook of system 2
  raises; \<^verbatim>\<open>update\<close> throws, and neither system 1 nor entity 1 is updated.
\<close>

theorem update_fault_counterexample:
  "update faulty 1 example_running =
     Throw (SystemUpdate 2 1) (example_running\<lparr>calls := [SystemUpdate 2 1]\<rparr>) \<and>
   SystemUpdate 1 1 \<notin> set (calls (state_of (update faulty 1 example_running))) \<and>
   EntityUpdate 1 1 \<notin> set (calls (state_of (update faulty 1 example_running)))"
  by (simp add: update_def example_defs call_def)

text \<open>
  Claim C3 as amended: in an active, unpaused world, when the update hook \<open>h\<close> of an
  enabled system or active entity is the first of the frame to raise, \<^verbatim>\<open>World.update\<close>
  throws that fault to its caller; the hooks scheduled before \<open>h\<close> have been invoked,
  \<open>h\<close> has been invoked, and no hook scheduled after \<open>h\<close> is invoked in that frame.
\<close>

theorem update_fault_propagates:
  assumes "active (world st)" and "\<not> paused (world st)"
    and "update_plan dt st = before @ h # rest"
    and "\<forall>h'\<in>set before. \<not> raises B h'" and "raises B h"
  shows "update B dt st = Throw h (st\<lparr>calls := calls st @ before @ [h]\<rparr>)"
  using assms by (simp add: update_run run_hooks_first_fault)

text \<open>
  The amended claim at the example world, with the hooks that raise at system 2.
\<close>

theorem update_fault_propagates_witness:
  "update faulty 1 (example_running\<lparr>calls := []\<rparr>) =
     Throw (SystemUpdate 2 1) (example_running\<lparr>calls := [SystemUpdate 2 1]\<rparr>)"
  using update_fault_propagates [of "example_running\<lparr>calls := []\<rparr>" 1 "[]" "SystemUpdate 2 1"
      "[SystemUpdate 1 1, EntityUpdate 1 1]" faulty]
  by (simp add: example_defs update_plan_def enabled_systems_def active_entities_def)

text \<open>
  Claim C4: after any sequence of \<^verbatim>\<open>addSystem\<close> and \<^verbatim>\<open>removeSystem\<close> calls on a world
  that started without systems, the system list is the stable sort by priority of the
  registered systems in insertion order: it is ascending in priority, and the systems
  of equal priority stand in insertion order. \<^verbatim>\<open>removeSystem\<close> takes the system out and
  keeps the order of the others. Hence the enabled systems are visited in ascending
  priority, and the hooks that a frame invokes are a prefix of these systems' update
  hooks followed by the entities'.
\<close>

theorem systems_sorted_by_priority_stable:
  assumes "systems (world st) = []"
  shows "systems (world (run_system_ops B ops st))
           = sort_key (priority (run_system_ops B ops st)) (insertion_order ops) \<and>
         sorted (map (priority (run_system_ops B ops st)) (systems (world (run_system_ops B ops st)))) \<and>
         (\<forall>p. filter (\<lambda>s. priority (run_system_ops B ops st) s = p) (systems (world (run_system_ops B ops st)))
               = filter (\<lambda>s. priority (run_system_ops B ops st) s = p) (insertion_order ops)) \<and>
         systems (world (state_of (removeSystem B s (run_system_ops B ops st))))
           = remove1 s (systems (world (run_system_ops B ops st))) \<and>
         sorted (map (priority (run_system_ops B ops st)) (enabled_systems (run_system_ops B ops st))) \<and>
         (active (world (run_system_ops B ops st)) \<and> \<not> paused (world (run_system_ops B ops st)) \<longrightarrow>
            (\<exists>k. calls (state_of (update B dt (run_system_ops B ops st)))
                   = calls (run_system_ops B ops st) @
                     take k (map (\<lambda>s. SystemUpdate s dt) (enabled_systems (run_system_ops B ops st)) @
                             map (\<lambda>e. EntityUpdate e dt) (active_entities (run_system_ops B ops st)))))"
proof -
  let ?fin = "run_system_ops B ops st"
  have "systems (world st) = sort_key (priority st) []"
    using assms by simp
  from run_system_ops_invariant [OF this, of B ops]
  have sys: "systems (world ?fin) = sort_key (priority ?fin) (insertion_order ops)"
    by (simp add: run_system_ops_def insertion_order_def)
  then have srt: "sorted (map (priority ?fin) (systems (world ?fin)))"
    by simp
  have stable: "filter (\<lambda>s. priority ?fin s = p) (systems (world ?fin))
               = filter (\<lambda>s. priority ?fin s = p) (insertion_order ops)" for p
    by (simp only: sys sort_key_stable)
  have rem: "systems (world (state_of (removeSystem B s ?fin))) = remove1 s (systems (world ?fin))"
    using removeSystem_systems [of B s ?fin] by simp
  have en: "sorted (map (priority ?fin) (enabled_systems ?fin))"
    using srt by (simp add: enabled_systems_def sorted_filter)
  have upd: "\<exists>k. calls (state_of (update B dt ?fin))
                   = calls ?fin @
                     take k (map (\<lambda>s. SystemUpdate s dt) (enabled_systems ?fin) @
                             map (\<lambda>e. EntityUpdate e dt) (active_entities ?fin))"
    if "active (world ?fin)" "\<not> paused (world ?fin)"
    using run_hooks_prefix [of B "update_plan dt ?fin" ?fin] update_run [OF that, of B dt]
    by (simp add: update_plan_def)
  from sys srt stable rem en upd show ?thesis by blast
qed

text \<open>
  Systems of priorities 30, 10 and 20, added in this order, are updated in the order
  10, 20, 30; of the two systems of priority 20, the one inserted first comes first.
\<close>

theorem systems_sorted_by_priority_stable_witness:
  "systems (world (run_system_ops quiet [AddSystem 1, AddSystem 2, AddSystem 3] example_store)) = [2, 3, 1] \<and>
   calls (state_of (update quiet 1 (run_system_ops quiet [AddSystem 1, AddSystem 2, AddSystem 3] example_store)))
     = [SystemUpdate 2 1, SystemUpdate 3 1, SystemUpdate 1 1] \<and>
   insertion_order example_ops = [1, 2, 4] \<and>
   systems (world (run_system_ops quiet example_ops example_store)) = [2, 4, 1]"
proof -
  let ?ops = "[AddSystem 1, AddSystem 2, AddSystem 3]"
  let ?fin = "run_system_ops quiet ?ops example_store"
  have empty: "systems (world example_store) = []"
    by (simp add: example_defs)
  have prio: "priority (run_system_ops quiet ops example_store) = priority example_store" for ops
    using run_system_ops_invariant [of example_store "[]" quiet ops] empty
    by (simp add: run_system_ops_def)
  have p: "priority example_store (Suc 0) = 30" "priority example_store 2 = 10"
    "priority example_store 3 = 20" "priority example_store 4 = 20"
    by (simp_all add: priority_def example_defs)
  have io: "insertion_order ?ops = [1, 2, 3]" "insertion_order example_ops = [1, 2, 4]"
    by (simp_all add: insertion_order_def example_ops_def)
  have A: "systems (world ?fin) = [2, 3, 1]"
    using systems_sorted_by_priority_stable
      [OF empty, where B = quiet and ops = ?ops and s = 0 and dt = 0, THEN conjunct1]
    unfolding prio io by (simp add: p)
  have B: "systems (world (run_system_ops quiet example_ops example_store)) = [2, 4, 1]"
    using systems_sorted_by_priority_stable
      [OF empty, where B = quiet and ops = example_ops and s = 0 and dt = 0, THEN conjunct1]
    unfolding prio io by (simp add: p)
  have fin: "?fin = example_store
      \<lparr>world := new_World\<lparr>systems := [2, 3, 1]\<rparr>,
       system_obj := (system_obj example_store)
         (1 := (mk_system 30 True {})\<lparr>s_world := Some 0\<rparr>,
          2 := (mk_system 10 True {})\<lparr>s_world := Some 0\<rparr>,
          3 := (mk_system 20 True {})\<lparr>s_world := Some 0\<rparr>)\<rparr>"
    by (simp add: run_system_ops_def addSystem_def sortSystems_def priority_def example_defs Let_def)
  have C: "calls (state_of (update quiet 1 ?fin)) = [SystemUpdate 2 1, SystemUpdate 3 1, SystemUpdate 1 1]"
    unfolding fin by (simp add: update_def example_defs call_def)
  from A B C io show ?thesis by simp
qed

text \<open>
  Claim C5: in a world whose registry has distinct keys (a \<^verbatim>\<open>Map\<close> has no other), when
  \<^verbatim>\<open>destroy()\<close> returns, the destroy hook of every registered entity and then of every
  registered system has been invoked, the registry, the system list and the scene root
  are empty, and \<^verbatim>\<open>active\<close> and \<^verbatim>\<open>initialized\<close> are false. It returns whenever none of
  these hooks raises.
\<close>

theorem destroy_empties_world:
  assumes "distinct (map fst (entities (world st)))"
  shows "((\<forall>h\<in>set (destroy_plan st). \<not> raises B h) \<longrightarrow>
            destroy B st =
              Return () (st\<lparr>world := (world st)\<lparr>entities := [], systems := [],
                                                 active := False, initialized := False\<rparr>,
                            scene := [],
                            calls := calls st @ destroy_plan st\<rparr>)) \<and>
         (\<forall>st'. destroy B st = Return () st' \<longrightarrow>
            entities (world st') = [] \<and> systems (world st') = [] \<and> scene st' = [] \<and>
            \<not> active (world st') \<and> \<not> initialized (world st') \<and>
            calls st' = calls st @ destroy_plan st)"
proof -
  let ?es = "map (\<lambda>(eid, e). EntityDestroy e) (entities (world st))"
  let ?ss = "map SystemDestroy (systems (world st))"
  have quiet: "destroy B st =
              Return () (st\<lparr>world := (world st)\<lparr>entities := [], systems := [],
                                                 active := False, initialized := False\<rparr>,
                            scene := [],
                            calls := calls st @ destroy_plan st\<rparr>)"
    if "\<forall>h\<in>set (destroy_plan st). \<not> raises B h"
  proof -
    from that have "\<forall>h\<in>set ?es. \<not> raises B h" "\<forall>h\<in>set ?ss. \<not> raises B h"
      by (auto simp: destroy_plan_def)
    then show ?thesis
      by (simp add: destroy_unfold [OF assms] run_hooks_quiet destroy_plan_def)
  qed
  have throws: "\<exists>h st'. destroy B st = Throw h st'"
    if "\<exists>h\<in>set (destroy_plan st). raises B h"
  proof (cases "\<exists>h\<in>set ?es. raises B h")
    case True
    show ?thesis
      unfolding destroy_unfold [OF assms]
      by (rule andThen_throws, rule run_hooks_throws, rule True)
  next
    case False
    with that have ss: "\<exists>h\<in>set ?ss. raises B h"
      by (auto simp: destroy_plan_def)
    from False have "\<forall>h\<in>set ?es. \<not> raises B h" by blast
    then have "destroy B st =
       andThen (run_hooks B ?ss (st\<lparr>calls := calls st @ ?es, world := (world st)\<lparr>entities := []\<rparr>\<rparr>))
         (\<lambda>st''. Return ()
               (st''\<lparr>scene := [],
                     world := (world st'')\<lparr>systems := [], active := False, initialized := False\<rparr>\<rparr>))"
      by (simp add: destroy_unfold [OF assms] run_hooks_quiet)
    then show ?thesis
      using andThen_throws [OF run_hooks_throws [OF ss]] by simp
  qed
  show ?thesis
  proof (intro conjI impI allI)
    assume "\<forall>h\<in>set (destroy_plan st). \<not> raises B h"
    then show "destroy B st =
              Return () (st\<lparr>world := (world st)\<lparr>entities := [], systems := [],
                                                 active := False, initialized := False\<rparr>,
                            scene := [],
                            calls := calls st @ destroy_plan st\<rparr>)"
      by (rule quiet)
  next
    fix st'
    assume r: "destroy B st = Return () st'"
    have "\<forall>h\<in>set (destroy_plan st). \<not> raises B h"
    proof (rule ccontr)
      assume "\<not> (\<forall>h\<in>set (destroy_plan st). \<not> raises B h)"
      then have "\<exists>h\<in>set (destroy_plan st). raises B h" by blast
      from throws [OF this] r show False by auto
    qed
    from quiet [OF this] r
    have "st' = st\<lparr>world := (world st)\<lparr>entities := [], systems := [],
                                                 active := False, initialized := False\<rparr>,
                            scene := [],
                            calls := calls st @ destroy_plan st\<rparr>"
      by simp
    then show "entities (world st') = []" "systems (world st') = []" "scene st' = []"
      "\<not> active (world st')" "\<not> initialized (world st')"
      "calls st' = calls st @ destroy_plan st"
      by simp_all
  qed
qed

text \<open>
  Destroying the example world of two entities and three systems.
\<close>

theorem destroy_empties_world_witness:
  "destroy quiet example_running =
     Return () (example_running
       \<lparr>world := new_World\<lparr>active := False\<rparr>, scene := [],
        calls := [EntityDestroy 1, EntityDestroy 3,
                  SystemDestroy 2, SystemDestroy 4, SystemDestroy 1]\<rparr>)"
proof -
  have d: "distinct (map fst (entities (world example_running)))"
    by (simp add: example_defs)
  have plan: "destroy_plan example_running =
      [EntityDestroy 1, EntityDestroy 3, SystemDestroy 2, SystemDestroy 4, SystemDestroy 1]"
    by (simp add: destroy_plan_def example_defs)
  have q: "\<forall>h\<in>set (destroy_plan example_running). \<not> raises quiet h"
    by (simp add: quiet_def)
  from destroy_empties_world [OF d, of quiet, THEN conjunct1, THEN mp, OF q]
  show ?thesis
    unfolding plan by (simp add: example_defs)
qed

text \<open>
  Claim C6: when the registry already has an entity under the name of \<open>e\<close>,
  \<^verbatim>\<open>addEntity(e)\<close> returns without an exception and leaves the whole state as it was:
  the registry (the name still maps to the original entity, the size is the same), the
  scene graph, every system's tracked subset, and the call log (no system is offered
  \<open>e\<close>, \<^verbatim>\<open>e.initialize()\<close> is not called).
\<close>

theorem addEntity_duplicate_name_rejected:
  assumes "Map_has (entities (world st)) (e_name (entity_obj st e))"
  shows "addEntity B e st = Return () st"
  using assms by (simp add: addEntity_def)

text \<open>
  Entity 4 is a second object named \<^verbatim>\<open>P\<close>; the registry keeps entity 1.
\<close>

theorem addEntity_duplicate_name_rejected_witness:
  "addEntity quiet 4 example_running = Return () example_running \<and>
   Map_get (entities (world example_running)) ''P'' = Some 1"
  using addEntity_duplicate_name_rejected [of example_running 4 quiet]
  by (simp add: example_defs Map_has_def Map_get_def)

text \<open>
  Claim C7 says ``for every world'' that \<^verbatim>\<open>removeEntity\<close> returns \<^verbatim>\<open>true\<close> when the entity
  was registered, with every system told and the entity erased. In the example world
  \<^verbatim>\<open>P\<close> is registered and the systems are 2, 4 and 1; the \<^verbatim>\<open>removeEntity\<close> hook of
  system 4 raises. \<^verbatim>\<open>World.ts\<close> has no \<^verbatim>\<open>try\<close>/\<^verbatim>\<open>catch\<close>: \<^verbatim>\<open>removeEntity\<close> returns nothing,
  the node of \<^verbatim>\<open>P\<close> is detached already, system 1 is never told, and \<^verbatim>\<open>P\<close> is still
  registered.
\<close>

theorem removeEntity_hook_fault_counterexample:
  "Map_get (entities (world example_running)) ''P'' = Some 1 \<and>
   result_value (removeEntity faulty_remove (Inl ''P'') example_running) = None \<and>
   scene (state_of (removeEntity faulty_remove (Inl ''P'') example_running)) = [3] \<and>
   calls (state_of (removeEntity faulty_remove (Inl ''P'') example_running)) =
     [SystemRemoveEntity 2 1, SystemRemoveEntity 4 1] \<and>
   Map_get (entities (world (state_of (removeEntity faulty_remove (Inl ''P'') example_running))))
     ''P'' = Some 1"
  by (simp add: removeEntity_def System_removeEntity_def call_def faulty_remove_def Let_def
      example_defs Map_get_def Scene_remove_def splice1_def)

text \<open>
  Claim C7 as amended: \<^verbatim>\<open>removeEntity\<close> with an entity object is \<^verbatim>\<open>removeEntity\<close> with its
  name. When no entity is registered under the identity, it returns \<^verbatim>\<open>false\<close>, throws
  nothing and leaves the state unchanged. When entity \<open>e\<close> is registered under it,
  \<^verbatim>\<open>false\<close> is never returned. The node of \<open>e\<close> is detached from the scene and the
  registered systems are told in list order to remove \<open>e\<close> (no compatibility check).
  When none of these hooks raises, every system has been told, the identity is erased
  from the registry and \<^verbatim>\<open>true\<close> is returned. When the hook of system \<open>s\<close> is the first
  to raise, its fault propagates to the caller: the node is detached, the systems up to
  \<open>s\<close> have been told, those after \<open>s\<close> have not, and \<open>e\<close> is still registered.
\<close>

theorem removeEntity_result:
  "removeEntity B (Inr x) st = removeEntity B (Inl (e_name (entity_obj st x))) st \<and>
   (Map_get (entities (world st)) eid = None \<longrightarrow> removeEntity B (Inl eid) st = Return False st) \<and>
   (\<forall>e. Map_get (entities (world st)) eid = Some e \<longrightarrow>
      result_value (removeEntity B (Inl eid) st) \<noteq> Some False \<and>
      ((\<forall>s\<in>set (systems (world st)). \<not> raises B (SystemRemoveEntity s e)) \<longrightarrow>
         removeEntity B (Inl eid) st =
           Return True
             (st\<lparr>scene := Scene_remove (e_object3D (entity_obj st e)) (scene st),
                 calls := calls st @ map (\<lambda>s. SystemRemoveEntity s e) (systems (world st)),
                 system_obj := untrack e (systems (world st)) (system_obj st),
                 world := (world st)\<lparr>entities := Map_delete (entities (world st)) eid\<rparr>\<rparr>) \<and>
         Map_get (Map_delete (entities (world st)) eid) eid = None) \<and>
      (\<forall>pre s post.
         systems (world st) = pre @ s # post \<and>
         (\<forall>s'\<in>set pre. \<not> raises B (SystemRemoveEntity s' e)) \<and>
         raises B (SystemRemoveEntity s e) \<longrightarrow>
         removeEntity B (Inl eid) st =
           Throw (SystemRemoveEntity s e)
             (st\<lparr>scene := Scene_remove (e_object3D (entity_obj st e)) (scene st),
                 calls := calls st @ map (\<lambda>s. SystemRemoveEntity s e) (pre @ [s]),
                 system_obj := untrack e pre (system_obj st)\<rparr>)))"
proof (intro conjI impI allI)
  show "removeEntity B (Inr x) st = removeEntity B (Inl (e_name (entity_obj st x))) st"
    by (simp add: removeEntity_def)
next
  assume "Map_get (entities (world st)) eid = None"
  then show "removeEntity B (Inl eid) st = Return False st"
    by (simp add: removeEntity_def)
next
  fix e
  assume e: "Map_get (entities (world st)) eid = Some e"
  let ?loop = "forEach (\<lambda>system. System_removeEntity B system e) (systems (world st))
      (st\<lparr>scene := Scene_remove (e_object3D (entity_obj st e)) (scene st)\<rparr>)"
  show "result_value (removeEntity B (Inl eid) st) \<noteq> Some False"
    using e by (cases ?loop) (simp_all add: removeEntity_def)
  {
    assume q: "\<forall>s\<in>set (systems (world st)). \<not> raises B (SystemRemoveEntity s e)"
    show "Map_get (Map_delete (entities (world st)) eid) eid = None"
      by (induction "entities (world st)") (auto simp: Map_get_def Map_delete_def map_of_eq_None_iff)
    show "removeEntity B (Inl eid) st =
             Return True
               (st\<lparr>scene := Scene_remove (e_object3D (entity_obj st e)) (scene st),
                   calls := calls st @ map (\<lambda>s. SystemRemoveEntity s e) (systems (world st)),
                   system_obj := untrack e (systems (world st)) (system_obj st),
                   world := (world st)\<lparr>entities := Map_delete (entities (world st)) eid\<rparr>\<rparr>)"
      using e by (simp add: removeEntity_def forEach_removeEntity_quiet [OF q])
  }
  fix pre s post
  assume f: "systems (world st) = pre @ s # post \<and>
         (\<forall>s'\<in>set pre. \<not> raises B (SystemRemoveEntity s' e)) \<and>
         raises B (SystemRemoveEntity s e)"
  then have p: "\<forall>s'\<in>set pre. \<not> raises B (SystemRemoveEntity s' e)"
    and r: "raises B (SystemRemoveEntity s e)"
    and ss: "systems (world st) = pre @ s # post"
    by simp_all
  show "removeEntity B (Inl eid) st =
           Throw (SystemRemoveEntity s e)
             (st\<lparr>scene := Scene_remove (e_object3D (entity_obj st e)) (scene st),
                 calls := calls st @ map (\<lambda>s. SystemRemoveEntity s e) (pre @ [s]),
                 system_obj := untrack e pre (system_obj st)\<rparr>)"
    using e forEach_removeEntity_first_fault [OF p r, of post]
    by (simp add: removeEntity_def ss)
qed

text \<open>
  Removing \<^verbatim>\<open>Z\<close> (not registered) and \<^verbatim>\<open>P\<close> (entity 1, tracked by system 2) from the
  example world with hooks that do not raise, and removing \<^verbatim>\<open>P\<close> when the hook of
  system 4, the second of the systems 2, 4 and 1, raises.
\<close>

theorem removeEntity_result_witness:
  "removeEntity quiet (Inl ''Z'') example_running = Return False example_running \<and>
   result_value (removeEntity quiet (Inl ''P'') example_running) = Some True \<and>
   entities (world (state_of (removeEntity quiet (Inl ''P'') example_running))) = [(''Q'', 3)] \<and>
   scene (state_of (removeEntity quiet (Inl ''P'') example_running)) = [3] \<and>
   calls (state_of (removeEntity quiet (Inl ''P'') example_running)) =
     [SystemRemoveEntity 2 1, SystemRemoveEntity 4 1, SystemRemoveEntity 1 1] \<and>
   tracked (state_of (removeEntity quiet (Inl ''P'') example_running)) 2 = {3} \<and>
   removeEntity faulty_remove (Inl ''P'') example_running =
     Throw (SystemRemoveEntity 4 1)
       (example_running
          \<lparr>scene := [3],
           calls := [SystemRemoveEntity 2 1, SystemRemoveEntity 4 1],
           system_obj := untrack 1 [2] (system_obj example_running)\<rparr>)"
proof -
  have A: "removeEntity quiet (Inl ''Z'') example_running = Return False example_running \<and>
   result_value (removeEntity quiet (Inl ''P'') example_running) = Some True \<and>
   entities (world (state_of (removeEntity quiet (Inl ''P'') example_running))) = [(''Q'', 3)] \<and>
   scene (state_of (removeEntity quiet (Inl ''P'') example_running)) = [3] \<and>
   calls (state_of (removeEntity quiet (Inl ''P'') example_running)) =
     [SystemRemoveEntity 2 1, SystemRemoveEntity 4 1, SystemRemoveEntity 1 1] \<and>
   tracked (state_of (removeEntity quiet (Inl ''P'') example_running)) 2 = {3}"
    using removeEntity_result [of quiet 0 example_running "''Z''"]
      removeEntity_result [of quiet 0 example_running "''P''"]
    by (simp add: example_defs Map_get_def Map_delete_def Scene_remove_def splice1_def
        untrack_def tracked_def)
  have e: "Map_get (entities (world example_running)) ''P'' = Some 1"
    by (simp add: example_defs Map_get_def)
  have f: "systems (world example_running) = [2] @ 4 # [1] \<and>
      (\<forall>s'\<in>set [2]. \<not> raises faulty_remove (SystemRemoveEntity s' 1)) \<and>
      raises faulty_remove (SystemRemoveEntity 4 1)"
    by (simp add: example_defs faulty_remove_def)
  have v: "Scene_remove (e_object3D (entity_obj example_running 1)) (scene example_running) = [3]"
    "calls example_running @ map (\<lambda>s. SystemRemoveEntity s 1) ([2] @ [4]) =
       [SystemRemoveEntity 2 1, SystemRemoveEntity 4 1]"
    by (simp_all add: example_defs Scene_remove_def splice1_def)
  from removeEntity_result [of faulty_remove 0 example_running "''P''"] e f
  have "removeEntity faulty_remove (Inl ''P'') example_running =
     Throw (SystemRemoveEntity 4 1)
       (example_running
          \<lparr>scene := Scene_remove (e_object3D (entity_obj example_running 1)) (scene example_running),
           calls := calls example_running @ map (\<lambda>s. SystemRemoveEntity s 1) ([2] @ [4]),
           system_obj := untrack 1 [2] (system_obj example_running)\<rparr>)"
    by blast
  then have B: "removeEntity faulty_remove (Inl ''P'') example_running =
     Throw (SystemRemoveEntity 4 1)
       (example_running
          \<lparr>scene := [3],
           calls := [SystemRemoveEntity 2 1, SystemRemoveEntity 4 1],
           system_obj := untrack 1 [2] (system_obj example_running)\<rparr>)"
    by (simp only: v)
  from A B show ?thesis by blast
qed

text \<open>
  Claim C8: in an active, unpaused world the hooks that \<^verbatim>\<open>World.update\<close> invokes are a
  prefix of \<open>update_plan\<close>: the update hooks of the enabled systems in list order, then
  those of the active entities in registry (insertion) order; disabled systems and
  inactive entities do not occur in it. When no hook of the plan raises, \<^verbatim>\<open>update\<close>
  returns, has invoked exactly the plan, and has changed nothing else.
\<close>

theorem update_systems_then_entities:
  assumes "active (world st)" and "\<not> paused (world st)"
  shows "(\<exists>k. calls (state_of (update B dt st)) = calls st @ take k (update_plan dt st)) \<and>
         ((\<forall>h\<in>set (update_plan dt st). \<not> raises B h) \<longrightarrow>
            update B dt st = Return () (st\<lparr>calls := calls st @ update_plan dt st\<rparr>))"
  using assms run_hooks_prefix [of B "update_plan dt st" st]
  by (simp add: update_run run_hooks_quiet)

text \<open>
  In the example world (systems 2, 4, 1 of which 4 is disabled; entities 1 and 3 of
  which 3 is inactive) a frame updates system 2, system 1, then entity 1.
\<close>

theorem update_systems_then_entities_witness:
  "update quiet 1 example_running =
     Return () (example_running\<lparr>calls := [SystemUpdate 2 1, SystemUpdate 1 1, EntityUpdate 1 1]\<rparr>)"
  using update_systems_then_entities [of example_running quiet 1]
  by (simp add: example_defs update_plan_def enabled_systems_def active_entities_def)

text \<open>
  Claim C9: in a paused or inactive world the four passes return at once, with the
  state they were given (no hook invoked, nothing mutated). \<^verbatim>\<open>resume()\<close> on a paused
  world only clears the flag and emits the resume event; when the world is active the
  four passes then dispatch the hooks of the pre-pause systems and entities. A pass
  between \<^verbatim>\<open>pause()\<close> and \<^verbatim>\<open>resume()\<close> leaves the state as it was before the pause, up
  to the two events on the bus.
\<close>

theorem paused_world_suppresses_passes:
  "(paused (world st) \<or> \<not> active (world st) \<longrightarrow>
      update B dt st = Return () st \<and> fixedUpdate B dt st = Return () st \<and>
      preRender B st = Return () st \<and> postRender B st = Return () st) \<and>
   (paused (world st) \<longrightarrow>
      resume st = st\<lparr>world := (world st)\<lparr>paused := False\<rparr>,
                     bus := bus st @ [Emit_world_resume (name (world st))]\<rparr> \<and>
      (active (world st) \<longrightarrow>
         update B dt (resume st) = run_hooks B (update_plan dt st) (resume st) \<and>
         fixedUpdate B dt (resume st) = run_hooks B (fixedUpdate_plan dt st) (resume st) \<and>
         preRender B (resume st) = run_hooks B (preRender_plan st) (resume st) \<and>
         postRender B (resume st) = run_hooks B (postRender_plan st) (resume st))) \<and>
   (\<not> paused (world st) \<longrightarrow>
      resume (state_of (update B dt (pause st))) =
        st\<lparr>bus := bus st @ [Emit_world_pause (name (world st)),
                             Emit_world_resume (name (world st))]\<rparr>)"
proof (intro conjI impI)
  assume "paused (world st) \<or> \<not> active (world st)"
  then show "update B dt st = Return () st" "fixedUpdate B dt st = Return () st"
    "preRender B st = Return () st" "postRender B st = Return () st"
    by (auto simp: update_def fixedUpdate_def preRender_def postRender_def)
next
  assume p: "paused (world st)"
  then show r: "resume st = st\<lparr>world := (world st)\<lparr>paused := False\<rparr>,
                     bus := bus st @ [Emit_world_resume (name (world st))]\<rparr>"
    by (simp add: resume_def)
  assume a: "active (world st)"
  have plans: "update_plan dt (resume st) = update_plan dt st"
    "fixedUpdate_plan dt (resume st) = fixedUpdate_plan dt st"
    "preRender_plan (resume st) = preRender_plan st"
    "postRender_plan (resume st) = postRender_plan st"
    by (simp_all add: r update_plan_def enabled_systems_def active_entities_def
        fixedUpdate_plan_def preRender_plan_def postRender_plan_def)
  have ok: "active (world (resume st))" "\<not> paused (world (resume st))"
    using a by (simp_all add: r)
  show "update B dt (resume st) = run_hooks B (update_plan dt st) (resume st)"
    using update_run [OF ok] by (simp only: plans)
  show "fixedUpdate B dt (resume st) = run_hooks B (fixedUpdate_plan dt st) (resume st)"
    using fixedUpdate_run [OF ok] by (simp only: plans)
  show "preRender B (resume st) = run_hooks B (preRender_plan st) (resume st)"
    using preRender_run [OF ok] by (simp only: plans)
  show "postRender B (resume st) = run_hooks B (postRender_plan st) (resume st)"
    using postRender_run [OF ok] by (simp only: plans)
next
  assume "\<not> paused (world st)"
  then show "resume (state_of (update B dt (pause st))) =
        st\<lparr>bus := bus st @ [Emit_world_pause (name (world st)),
                             Emit_world_resume (name (world st))]\<rparr>"
    by (simp add: pause_def update_def resume_def)
qed

text \<open>
  The example world, paused and resumed.
\<close>

theorem paused_world_suppresses_passes_witness:
  "update quiet 1 (pause example_running) = Return () (pause example_running) \<and>
   fixedUpdate quiet 1 (pause example_running) = Return () (pause example_running) \<and>
   preRender quiet (pause example_running) = Return () (pause example_running) \<and>
   postRender quiet (pause example_running) = Return () (pause example_running) \<and>
   calls (state_of (update quiet 1 (resume (pause example_running)))) =
     [SystemUpdate 2 1, SystemUpdate 1 1, EntityUpdate 1 1] \<and>
   calls (state_of (fixedUpdate quiet 1 (resume (pause example_running)))) =
     [SystemFixedUpdate 2 1, SystemFixedUpdate 1 1] \<and>
   calls (state_of (preRender quiet (resume (pause example_running)))) = [] \<and>
   calls (state_of (postRender quiet (resume (pause example_running)))) =
     [SystemPostRender 2, SystemPostRender 1] \<and>
   resume (state_of (update quiet 1 (pause example_running))) =
     example_running\<lparr>bus := [Emit_world_pause ''BaseWorld'', Emit_world_resume ''BaseWorld'']\<rparr>"
proof -
  let ?p = "pause example_running"
  have flags: "paused (world ?p)" "active (world ?p)" "\<not> paused (world example_running)"
    by (simp_all add: pause_def example_defs)
  have names: "bus example_running = []" "name (world example_running) = ''BaseWorld''"
    by (simp_all add: example_defs)
  have plans: "update_plan 1 ?p = [SystemUpdate 2 1, SystemUpdate 1 1, EntityUpdate 1 1]"
    "fixedUpdate_plan 1 ?p = [SystemFixedUpdate 2 1, SystemFixedUpdate 1 1]"
    "preRender_plan ?p = []"
    "postRender_plan ?p = [SystemPostRender 2, SystemPostRender 1]"
    by (simp_all add: pause_def example_defs update_plan_def enabled_systems_def
        active_entities_def fixedUpdate_plan_def preRender_plan_def postRender_plan_def)
  have log: "calls (resume ?p) = []"
    by (simp add: resume_def pause_def example_defs)
  have quiet: "raises quiet h = False" for h
    by (simp add: quiet_def)
  note T = paused_world_suppresses_passes [of ?p quiet 1]
  have T1: "update quiet 1 ?p = Return () ?p \<and>
      fixedUpdate quiet 1 ?p = Return () ?p \<and>
      preRender quiet ?p = Return () ?p \<and>
      postRender quiet ?p = Return () ?p"
    using T flags by blast
  have T2: "update quiet 1 (resume ?p) = run_hooks quiet (update_plan 1 ?p) (resume ?p) \<and>
      fixedUpdate quiet 1 (resume ?p) = run_hooks quiet (fixedUpdate_plan 1 ?p) (resume ?p) \<and>
      preRender quiet (resume ?p) = run_hooks quiet (preRender_plan ?p) (resume ?p) \<and>
      postRender quiet (resume ?p) = run_hooks quiet (postRender_plan ?p) (resume ?p)"
    using T flags by blast
  have A: "calls (state_of (update quiet 1 (resume ?p))) =
        [SystemUpdate 2 1, SystemUpdate 1 1, EntityUpdate 1 1] \<and>
      calls (state_of (fixedUpdate quiet 1 (resume ?p))) =
        [SystemFixedUpdate 2 1, SystemFixedUpdate 1 1] \<and>
      calls (state_of (preRender quiet (resume ?p))) = [] \<and>
      calls (state_of (postRender quiet (resume ?p))) =
        [SystemPostRender 2, SystemPostRender 1]"
    by (simp add: T2 plans log run_hooks_def quiet)
  have B: "resume (state_of (update quiet 1 ?p)) =
     example_running\<lparr>bus := [Emit_world_pause ''BaseWorld'', Emit_world_resume ''BaseWorld'']\<rparr>"
    using paused_world_suppresses_passes [of example_running quiet 1] flags
    by (simp add: names)
  from T1 A B show ?thesis by blast
qed

text \<open>
  Claim C10: a new world is named \<^verbatim>\<open>BaseWorld\<close>, active, not paused, not initialized,
  and has no entities and no systems. The four passes do not read \<^verbatim>\<open>initialized\<close>: in an
  active, unpaused world they dispatch the same hooks whatever the value \<open>b\<close> of the
  flag, so also before \<^verbatim>\<open>initialize()\<close> was ever called.
\<close>

theorem passes_ignore_initialized:
  "name new_World = ''BaseWorld'' \<and> active new_World \<and> \<not> paused new_World \<and>
   \<not> initialized new_World \<and> entities new_World = [] \<and> systems new_World = [] \<and>
   (active (world st) \<and> \<not> paused (world st) \<longrightarrow>
      update B dt (st\<lparr>world := (world st)\<lparr>initialized := b\<rparr>\<rparr>) =
        run_hooks B (update_plan dt st) (st\<lparr>world := (world st)\<lparr>initialized := b\<rparr>\<rparr>) \<and>
      fixedUpdate B dt (st\<lparr>world := (world st)\<lparr>initialized := b\<rparr>\<rparr>) =
        run_hooks B (fixedUpdate_plan dt st) (st\<lparr>world := (world st)\<lparr>initialized := b\<rparr>\<rparr>) \<and>
      preRender B (st\<lparr>world := (world st)\<lparr>initialized := b\<rparr>\<rparr>) =
        run_hooks B (preRender_plan st) (st\<lparr>world := (world st)\<lparr>initialized := b\<rparr>\<rparr>) \<and>
      postRender B (st\<lparr>world := (world st)\<lparr>initialized := b\<rparr>\<rparr>) =
        run_hooks B (postRender_plan st) (st\<lparr>world := (world st)\<lparr>initialized := b\<rparr>\<rparr>))"
proof -
  let ?st = "st\<lparr>world := (world st)\<lparr>initialized := b\<rparr>\<rparr>"
  have plans: "update_plan dt ?st = update_plan dt st"
    "fixedUpdate_plan dt ?st = fixedUpdate_plan dt st"
    "preRender_plan ?st = preRender_plan st"
    "postRender_plan ?st = postRender_plan st"
    by (simp_all add: update_plan_def enabled_systems_def active_entities_def
        fixedUpdate_plan_def preRender_plan_def postRender_plan_def)
  have "update B dt ?st = run_hooks B (update_plan dt st) ?st"
    "fixedUpdate B dt ?st = run_hooks B (fixedUpdate_plan dt st) ?st"
    "preRender B ?st = run_hooks B (preRender_plan st) ?st"
    "postRender B ?st = run_hooks B (postRender_plan st) ?st"
    if "active (world st)" "\<not> paused (world st)"
    using that update_run [of ?st B dt] fixedUpdate_run [of ?st B dt]
      preRender_run [of ?st B] postRender_run [of ?st B]
    by (simp_all add: plans)
  then show ?thesis by (simp add: new_World_def)
qed

text \<open>
  A new world that was given system 2 and entity 1 and was never initialized.
\<close>

theorem passes_ignore_initialized_witness:
  "initialized (world example_uninitialized) = False \<and>
   calls (state_of (update quiet 1 example_uninitialized)) =
     [SystemAddEntity 2 1, SystemUpdate 2 1, EntityUpdate 1 1] \<and>
   calls (state_of (fixedUpdate quiet 1 example_uninitialized)) =
     [SystemAddEntity 2 1, SystemFixedUpdate 2 1]"
proof -
  have st: "example_uninitialized =
     example_store
       \<lparr>world := new_World\<lparr>entities := [(''P'', 1)], systems := [2]\<rparr>,
        scene := [1],
        system_obj := (system_obj example_store)
          (2 := (mk_system 10 True {1})\<lparr>s_world := Some 0\<rparr>),
        calls := [SystemAddEntity 2 1]\<rparr>"
    by (simp add: example_uninitialized_def addSystem_def addEntity_def sortSystems_def
        priority_def example_defs Map_has_def Scene_add_def System_addEntity_def call_def Let_def)
  show ?thesis
    using passes_ignore_initialized [of example_uninitialized quiet 1 False]
    by (simp add: st example_defs update_plan_def enabled_systems_def active_entities_def
        fixedUpdate_plan_def run_hooks_def)
qed

end
